theory Spec2Isabelle
  imports Main
begin

section \<open>Python values shared by the operations\<close>

text \<open>
  The exceptions the modelled code can raise. A function that can raise returns a sum,
  \<open>Inl\<close> carrying the exception. \<open>FetchError\<close> stands for whatever
  \<^verbatim>\<open>requests.get\<close> or \<^verbatim>\<open>json.loads\<close> raise on a transport or decode failure.
\<close>

datatype py_error = StopIteration | KeyError | ValueError | TypeError | OverflowError | FetchError

text \<open>\<^verbatim>\<open>sep.join(xs)\<close> on strings.\<close>

fun join :: "string \<Rightarrow> string list \<Rightarrow> string" where
  "join sep [] = []"
| "join sep [x] = x"
| "join sep (x # y # ys) = x @ sep @ join sep (y # ys)"

text \<open>\<^verbatim>\<open>"%s:(%s)" % query\<close> for a pair of strings.\<close>

definition format_query :: "string \<times> string \<Rightarrow> string" where
  "format_query query = fst query @ '':('' @ snd query @ '')''"

section \<open>The paged search iterator (class IA)\<close>

text \<open>
  The request parameters that vary: \<^verbatim>\<open>q\<close>, \<^verbatim>\<open>rows\<close> and \<^verbatim>\<open>page\<close>. The entries
  \<^verbatim>\<open>callback\<close>, \<^verbatim>\<open>output\<close> and \<^verbatim>\<open>sort[]\<close> are constants of the source and are
  left out. Python integers are unbounded, hence \<open>int\<close>.
\<close>

record params =
  q :: string
  rows :: int
  page :: int

text \<open>
  The part of the decoded response body the iterator reads:
  \<^verbatim>\<open>response['response']['numFound']\<close> and \<^verbatim>\<open>response['response']['docs']\<close>.
\<close>

record 'd search_response =
  numFound :: int
  resp_docs :: "'d list"

text \<open>
  The search endpoint is a collaborator: a function from the request parameters to a
  decoded response, or to the exception of a failed fetch.
\<close>

type_synonym 'd search_api = "params \<Rightarrow> py_error + 'd search_response"

text \<open>
  The object state of \<^verbatim>\<open>IA\<close>: \<^verbatim>\<open>self.params\<close>, \<^verbatim>\<open>self.docs\<close>, \<^verbatim>\<open>self.more\<close> (the field \<open>more_pages\<close>: \<open>more\<close> is reserved in records).
  The field \<open>requested\<close> is not in the source: it records, in order, the page number
  of every request sent, so that statements about fetches can be made.
\<close>

record 'd IA =
  params :: params
  docs :: "'d list"
  more_pages :: bool
  requested :: "int list"

definition IA_init :: "(string \<times> string) list \<Rightarrow> int \<Rightarrow> int \<Rightarrow> 'd IA" where
  "IA_init queries page_size pg =
     \<lparr> params = \<lparr> q = join '' AND '' (map format_query queries),
                    rows = page_size,
                    page = pg - 1 \<rparr>,
       docs = [],
       more_pages = True,
       requested = [] \<rparr>"

text \<open>
  \<^verbatim>\<open>__fetch_next_page__\<close>: the page number is incremented before the request is sent,
  so it stays incremented when the request raises.
\<close>

definition IA_fetch_next_page :: "'d search_api \<Rightarrow> 'd IA \<Rightarrow> py_error option \<times> 'd IA" where
  "IA_fetch_next_page api self =
     (let ps = (params self)\<lparr> page := page (params self) + 1 \<rparr>;
          self1 = self\<lparr> params := ps, requested := requested self @ [page ps] \<rparr>
      in case api ps of
           Inl e \<Rightarrow> (Some e, self1)
         | Inr response \<Rightarrow>
             (None, self1\<lparr> docs := resp_docs response,
                           more_pages := (numFound response > rows ps * page ps) \<rparr>))"

definition IA_iter :: "'d IA \<Rightarrow> 'd IA" where
  "IA_iter self = self\<lparr> docs := [], more_pages := True \<rparr>"

definition IA_next :: "'d search_api \<Rightarrow> 'd IA \<Rightarrow> (py_error + 'd) \<times> 'd IA" where
  "IA_next api self =
     (case (if docs self = [] \<and> more_pages self then IA_fetch_next_page api self else (None, self)) of
        (Some e, self1) \<Rightarrow> (Inl e, self1)
      | (None, self1) \<Rightarrow>
          (case docs self1 of
             [] \<Rightarrow> (Inl StopIteration, self1)
           | d # ds \<Rightarrow> (Inr d, self1\<lparr> docs := ds \<rparr>)))"

text \<open>
  One traversal, as a \<^verbatim>\<open>for\<close> loop or \<^verbatim>\<open>list(...)\<close> runs it on an iterator:
  \<^verbatim>\<open>__next__\<close> is called until it raises. \<^verbatim>\<open>StopIteration\<close> ends the loop normally
  (\<open>None\<close> in the first component), any other exception propagates. The items
  yielded so far are accumulated in order. The loop need not end (a server may report
  more pages for ever), so the result is an option and \<open>None\<close> is divergence.
\<close>

partial_function (option) IA_traverse ::
  "'d search_api \<Rightarrow> 'd IA \<Rightarrow> 'd list \<Rightarrow> (py_error option \<times> 'd list \<times> 'd IA) option" where
  "IA_traverse api self acc =
     (case IA_next api self of
        (Inl e, self1) \<Rightarrow> Some (if e = StopIteration then None else Some e, acc, self1)
      | (Inr d, self1) \<Rightarrow> IA_traverse api self1 (acc @ [d]))"

text \<open>
  A well-behaved search endpoint over a fixed ranked result list \<open>items\<close>: it reports
  the total number of matches and returns the requested page, at most \<^verbatim>\<open>rows\<close>
  documents starting at offset \<^verbatim>\<open>rows * (page - 1)\<close>, in ranking order. This is the
  behaviour of the collaborator that the statements about complete traversals assume.
\<close>

definition search_server :: "'d list \<Rightarrow> 'd search_api" where
  "search_server items ps =
     Inr \<lparr> numFound = int (length items),
           resp_docs = take (nat (rows ps)) (drop (nat (rows ps * (page ps - 1))) items) \<rparr>"

text \<open>
  \<open>stops_at P N p K\<close>: among the pages after \<open>p\<close>, \<open>K\<close> is the first whose
  index times the page size \<open>P\<close> reaches the total \<open>N\<close> (the first page fetched
  counts even when the total is already reached).
\<close>

definition stops_at :: "int \<Rightarrow> int \<Rightarrow> int \<Rightarrow> int \<Rightarrow> bool" where
  "stops_at P N p K = (p + 1 \<le> K \<and> N \<le> P * K \<and> (K = p + 1 \<or> P * (K - 1) < N))"

section \<open>Documents and regular expressions\<close>

text \<open>
  A search result is a decoded JSON object: a mapping from field names to JSON values.
  Numbers are kept as integers. A character is one of the 256 code points below U+0100;
  among these the decimal digits that \<^verbatim>\<open>\d\<close> matches are exactly \<^verbatim>\<open>0\<close> to \<^verbatim>\<open>9\<close>.
\<close>

datatype json = JNull | JBool bool | JNumber int | JString string | JArray "json list"
  | JObject "(string \<times> json) list"

type_synonym json_doc = "string \<rightharpoonup> json"

text \<open>\<^verbatim>\<open>d.get(key, default)\<close>: the default stands in for a missing key only.\<close>

definition dict_get :: "json_doc \<Rightarrow> string \<Rightarrow> json \<Rightarrow> json" where
  "dict_get d key dflt = (case d key of None \<Rightarrow> dflt | Some v \<Rightarrow> v)"

text \<open>
  \<^verbatim>\<open>ia_links\<close> only fills the identifier into templates with \<^verbatim>\<open>%s\<close>; for it a
  document is taken with string fields.
\<close>

type_synonym doc = "string \<rightharpoonup> string"

text \<open>
  The two patterns of the source use only these constructs: the anchors \<^verbatim>\<open>^\<close> and
  \<^verbatim>\<open>$\<close>, a single character (a literal, or \<^verbatim>\<open>.\<close>), a character class repeated with
  \<^verbatim>\<open>+\<close>, and such a repetition inside the capturing group. A pattern is the list of
  its items.
\<close>

datatype re_item = Bol | Eol | One "char \<Rightarrow> bool" | Many "char \<Rightarrow> bool" | Cap "char \<Rightarrow> bool"

text \<open>A range \<^verbatim>\<open>lo-hi\<close> of a character class, by code point.\<close>

definition in_range :: "char \<Rightarrow> char \<Rightarrow> char \<Rightarrow> bool" where
  "in_range lo hi c = ((of_char lo :: nat) \<le> of_char c \<and> (of_char c :: nat) \<le> of_char hi)"

text \<open>The classes \<^verbatim>\<open>[0-9A-Za-z]\<close>, \<^verbatim>\<open>\d\<close>, \<^verbatim>\<open>[_]\<close>, and \<^verbatim>\<open>.\<close> (any character but a newline).\<close>

definition alnum :: "char \<Rightarrow> bool" where
  "alnum c = (in_range CHR ''0'' CHR ''9'' c \<or> in_range CHR ''A'' CHR ''Z'' c \<or> in_range CHR ''a'' CHR ''z'' c)"

definition digit :: "char \<Rightarrow> bool" where
  "digit c = in_range CHR ''0'' CHR ''9'' c"

definition underscore :: "char \<Rightarrow> bool" where
  "underscore c = (c = CHR ''_'')"

definition dot :: "char \<Rightarrow> bool" where
  "dot c = (c \<noteq> CHR 0x0A)"

text \<open>A run of literal characters.\<close>

definition lit :: "string \<Rightarrow> re_item list" where
  "lit s = map (\<lambda>x. One (\<lambda>c. c = x)) s"

text \<open>
  The backtracking of a greedy \<^verbatim>\<open>+\<close>: the continuation \<open>f\<close> is tried on the longest
  run first, then on shorter ones, down to one character; the first success is taken.
\<close>

primrec first_some :: "(nat \<Rightarrow> 'a option) \<Rightarrow> nat \<Rightarrow> 'a option" where
  "first_some f 0 = None"
| "first_some f (Suc n) = (case f (Suc n) of Some r \<Rightarrow> Some r | None \<Rightarrow> first_some f n)"

text \<open>
  Matching a pattern at the current position. \<open>s\<close> is the rest of the subject, \<open>bos\<close>
  says whether the position is the beginning of the subject, \<open>g\<close> is group 1 so far.
  The result is \<open>None\<close> when there is no match and otherwise the content of group 1
  (itself \<open>None\<close> when the group took no part). \<^verbatim>\<open>$\<close> matches at the end of the
  subject and before a newline that ends it.
\<close>

primrec re_run :: "re_item list \<Rightarrow> string \<Rightarrow> bool \<Rightarrow> string option \<Rightarrow> string option option" where
  "re_run [] s bos g = Some g"
| "re_run (it # its) s bos g =
     (case it of
        Bol \<Rightarrow> if bos then re_run its s bos g else None
      | Eol \<Rightarrow> if s = [] \<or> s = [CHR 0x0A] then re_run its s bos g else None
      | One p \<Rightarrow> (case s of [] \<Rightarrow> None | c # cs \<Rightarrow> if p c then re_run its cs False g else None)
      | Many p \<Rightarrow> first_some (\<lambda>k. re_run its (drop k s) False g) (length (takeWhile p s))
      | Cap p \<Rightarrow> first_some (\<lambda>k. re_run its (drop k s) False (Some (take k s))) (length (takeWhile p s)))"

text \<open>\<^verbatim>\<open>pattern.match(s)\<close>: a match at the beginning of the subject only.\<close>

definition re_match :: "re_item list \<Rightarrow> string \<Rightarrow> string option option" where
  "re_match pat s = re_run pat s True None"

text \<open>\<^verbatim>\<open>pattern.search(s)\<close>: the match at the leftmost position that has one.\<close>

fun re_search_from :: "re_item list \<Rightarrow> string \<Rightarrow> bool \<Rightarrow> string option option" where
  "re_search_from pat s bos =
     (case re_run pat s bos None of
        Some g \<Rightarrow> Some g
      | None \<Rightarrow> (case s of [] \<Rightarrow> None | c # cs \<Rightarrow> re_search_from pat cs False))"

definition re_search :: "re_item list \<Rightarrow> string \<Rightarrow> string option option" where
  "re_search pat s = re_search_from pat s True"

text \<open>
  \<^verbatim>\<open>CLIO_DERIVED_ID = re.compile('^ldpd[_]+([0-9A-Za-z]+)[_]+\\d+$')\<close> and
  \<^verbatim>\<open>CLIO_LINK = re.compile('"http:\\/\\/clio.columbia.edu\\/catalog\\/([0-9A-Za-z]+)"')\<close>.
  In the second pattern the double quotes (\<open>CHR 0x22\<close>) are part of the pattern, the
  scheme is \<^verbatim>\<open>http\<close>, and the two dots of the host name are unescaped.
\<close>

definition CLIO_DERIVED_ID :: "re_item list" where
  "CLIO_DERIVED_ID = [Bol] @ lit ''ldpd'' @ [Many underscore, Cap alnum, Many underscore, Many digit, Eol]"

definition CLIO_LINK :: "re_item list" where
  "CLIO_LINK = lit (CHR 0x22 # ''http://clio'') @ [One dot] @ lit ''columbia'' @ [One dot] @
     lit ''edu/catalog/'' @ [Cap alnum] @ lit [CHR 0x22]"

section \<open>Catalog identifier extraction (clio_id)\<close>

text \<open>
  \<^verbatim>\<open>doc['identifier']\<close> raises \<^verbatim>\<open>KeyError\<close> when the key is missing. The methods
  \<^verbatim>\<open>match\<close> and \<^verbatim>\<open>search\<close> of a compiled pattern raise \<^verbatim>\<open>TypeError\<close> when
  their argument is no string, which happens for a field that is present with another
  JSON value (\<^verbatim>\<open>null\<close>, a list, ...). The free text is read only when the identifier
  gave no id.
\<close>

definition clio_id :: "json_doc \<Rightarrow> py_error + string option" where
  "clio_id doc =
     (case doc ''identifier'' of
        None \<Rightarrow> Inl KeyError
      | Some (JString ident) \<Rightarrow>
          (let bib_id = (case re_match CLIO_DERIVED_ID ident of Some g \<Rightarrow> g | None \<Rightarrow> None)
           in if bib_id = None
              then (case dict_get doc ''stripped_tags'' (JString []) of
                      JString t \<Rightarrow>
                        (case re_search CLIO_LINK t of
                           Some g \<Rightarrow> Inr g
                         | None \<Rightarrow> Inr bib_id)
                    | _ \<Rightarrow> Inl TypeError)
              else Inr bib_id)
      | Some _ \<Rightarrow> Inl TypeError)"

text \<open>
  For the statements about the link strategy: the quoted catalog URL with a given id,
  whether a match of \<^verbatim>\<open>CLIO_LINK\<close> starts at position \<open>j\<close> of a text (as
  \<^verbatim>\<open>search\<close> tries it there), and whether none starts before position \<open>n\<close>.
\<close>

definition quoted_catalog_url :: "string \<Rightarrow> string" where
  "quoted_catalog_url cid = CHR 0x22 # ''http://clio.columbia.edu/catalog/'' @ cid @ [CHR 0x22]"

definition link_starts_at :: "string \<Rightarrow> nat \<Rightarrow> bool" where
  "link_starts_at s j = (re_run CLIO_LINK (drop j s) (j = 0) None \<noteq> None)"

definition no_link_before :: "string \<Rightarrow> nat \<Rightarrow> bool" where
  "no_link_before s n = list_all (\<lambda>j. \<not> link_starts_at s j) [0..<n]"

section \<open>Catalog record resolution (fetch_clio)\<close>

text \<open>
  A MARC record is kept abstract: its list of fields. \<^verbatim>\<open>Record()\<close> is the record
  with no field.
\<close>

datatype marc_record = Record "(string \<times> string) list"

definition Record_empty :: marc_record where
  "Record_empty = Record []"

text \<open>
  What \<^verbatim>\<open>next(marc_reader)\<close> does on the body of a response: it returns a record or
  raises one of the two exceptions the handler of the source names.
\<close>

datatype parse_outcome = Parsed marc_record | Raises_ValueError | Raises_RecordLengthInvalid

text \<open>
  The \<^verbatim>\<open>Retry-After\<close> header as \<^verbatim>\<open>int(response.headers['Retry-After'])\<close> reads it:
  absent (\<^verbatim>\<open>KeyError\<close>), not an integer literal (\<^verbatim>\<open>ValueError\<close>), or an integer,
  which may be negative.
\<close>

datatype int_header = Absent | NotAnInt | Seconds int

record response =
  status_code :: int
  retry_after_header :: int_header
  marc :: parse_outcome
  url :: string

text \<open>
  The effects of a call, in order: sleeping, sending a request, and the three lines
  written to the diagnostic stream.
\<close>

datatype event = Sleep int | Get string | LogRateLimited int string | LogHeaders | LogGivingUp string

fun is_Get :: "event \<Rightarrow> bool" where
  "is_Get (Get u) = True"
| "is_Get _ = False"

text \<open>The number of requests sent so far.\<close>

definition sent :: "event list \<Rightarrow> nat" where
  "sent tr = length (filter is_Get tr)"

text \<open>
  The catalog endpoint is a collaborator: the response to the first request, to the
  second, and so on.
\<close>

type_synonym clio_api = "nat \<Rightarrow> response"

text \<open>
  \<^verbatim>\<open>time.sleep\<close> raises \<^verbatim>\<open>ValueError\<close> on a negative length. CPython keeps the
  length as a signed 64-bit count of nanoseconds and raises \<^verbatim>\<open>OverflowError\<close> when
  it does not fit, that is for more than \<open>9223372036\<close> seconds.
\<close>

definition sleep_max :: int where
  "sleep_max = 9223372036"

definition sleep :: "int \<Rightarrow> event list \<Rightarrow> py_error + event list" where
  "sleep secs tr =
     (if secs < 0 then Inl ValueError
      else if sleep_max < secs then Inl OverflowError
      else Inr (tr @ [Sleep secs]))"

text \<open>
  \<^verbatim>\<open>fetch_clio(identifier, retry_after=-1)\<close>. The recursion of the source is kept; it
  need not end, so the result is an option and \<open>None\<close> is divergence. An exception
  raised inside the handler (by the header lookup or by \<^verbatim>\<open>int\<close>) propagates.
\<close>

partial_function (option) fetch_clio ::
  "clio_api \<Rightarrow> string \<Rightarrow> int \<Rightarrow> event list \<Rightarrow> ((py_error + marc_record) \<times> event list) option" where
  "fetch_clio api identifier retry_after tr =
     (case (if retry_after \<noteq> - 1 then sleep retry_after tr else Inr tr) of
        Inl e \<Rightarrow> Some (Inl e, tr)
      | Inr tr1 \<Rightarrow>
          (let response = api (sent tr1);
               tr2 = tr1 @ [Get (''https://clio.columbia.edu/catalog/'' @ identifier @ ''.marc'')]
           in case marc response of
                Parsed r \<Rightarrow> Some (Inr r, tr2)
              | _ \<Rightarrow>
                  if retry_after = - 1 \<and> status_code response = 429
                  then (case retry_after_header response of
                          Absent \<Rightarrow> Some (Inl KeyError, tr2)
                        | NotAnInt \<Rightarrow> Some (Inl ValueError, tr2)
                        | Seconds s \<Rightarrow>
                            fetch_clio api identifier (s + 1)
                              (tr2 @ [LogRateLimited (s + 1) (url response), LogHeaders]))
                  else Some (Inr Record_empty, tr2 @ [LogGivingUp (url response)])))"

declare IA_traverse.simps [code]

declare fetch_clio.simps [code]

text \<open>
  Two responses used in examples: a throttled one (status 429, a body that is no MARC
  record, \<^verbatim>\<open>Retry-After: s\<close>) and a successful one.
\<close>

definition throttled :: "int \<Rightarrow> response" where
  "throttled s = \<lparr> status_code = 429, retry_after_header = Seconds s, marc = Raises_ValueError,
                   url = ''https://clio.columbia.edu/catalog/123.marc'' \<rparr>"

definition found :: response where
  "found = \<lparr> status_code = 200, retry_after_header = Absent,
             marc = Parsed (Record [(''245'', ''Title'')]),
             url = ''https://clio.columbia.edu/catalog/123.marc'' \<rparr>"

section \<open>Derived links (ia_links)\<close>

text \<open>The dictionary of the source, as the list of its entries in the order written.\<close>

definition ia_links :: "doc \<Rightarrow> py_error + (string \<times> string) list" where
  "ia_links doc =
     (case doc ''identifier'' of
        None \<Rightarrow> Inl KeyError
      | Some ia_id \<Rightarrow>
          Inr [(''thumbnail'', ''https://archive.org/services/img/'' @ ia_id),
               (''poster'', ''https://archive.org/download/'' @ ia_id @ ''/page/cover_medium.jpg''),
               (''pdf'', ''https://archive.org/download/'' @ ia_id @ ''/'' @ ia_id @ ''.pdf''),
               (''iframe'', ''https://archive.org/stream/'' @ ia_id @ ''?ui=full&showNavbar=false'')])"

section \<open>Streaming output (dump_iterable)\<close>

text \<open>
  The effects of \<^verbatim>\<open>dump_iterable\<close>, in order: a call of \<^verbatim>\<open>print\<close> with its argument,
  or a call of \<^verbatim>\<open>next(docs, None)\<close>. The iterator \<^verbatim>\<open>docs\<close> is the list \<open>docs0\<close> of the
  items it has still to yield; its items are documents, never \<^verbatim>\<open>None\<close>. \<^verbatim>\<open>json.dumps(doc, indent=2)\<close>
  is the parameter \<open>dumps\<close>.
\<close>

datatype io_event = Print string | Next

definition next_or_None :: "'a list \<Rightarrow> 'a option \<times> 'a list" where
  "next_or_None docs0 = (case docs0 of [] \<Rightarrow> (None, []) | d # ds \<Rightarrow> (Some d, ds))"

text \<open>The \<^verbatim>\<open>while doc is not None\<close> loop.\<close>

function dump_loop ::
  "('a \<Rightarrow> string) \<Rightarrow> 'a option \<Rightarrow> 'a list \<Rightarrow> io_event list \<Rightarrow> io_event list \<times> 'a list" where
  "dump_loop dumps None docs0 out = (out, docs0)"
| "dump_loop dumps (Some doc) docs0 out =
     (let out1 = out @ [Print '',''];
          out2 = out1 @ [Print (dumps doc)]
      in case next_or_None docs0 of
           (doc', docs') \<Rightarrow> dump_loop dumps doc' docs' (out2 @ [Next]))"
  by pat_completeness auto
termination
  by (relation "measure (\<lambda>(dumps, doc, docs0, out). length docs0 + (case doc of None \<Rightarrow> 0 | Some _ \<Rightarrow> 1))")
     (auto simp: next_or_None_def split: list.splits)

definition dump_iterable :: "('a \<Rightarrow> string) \<Rightarrow> 'a list \<Rightarrow> io_event list \<times> 'a list" where
  "dump_iterable dumps docs0 =
     (let out = [Print ''[''] in
      case next_or_None docs0 of
        (doc, docs1) \<Rightarrow>
          (let out1 = out @ [Next] in
           case doc of
             None \<Rightarrow> (out1 @ [Print '']''], docs1)
           | Some d \<Rightarrow>
               (let out2 = out1 @ [Print (dumps d)] in
                case next_or_None docs1 of
                  (doc', docs2) \<Rightarrow>
                    (case dump_loop dumps doc' docs2 (out2 @ [Next]) of
                       (out3, docs3) \<Rightarrow> (out3 @ [Print '']''], docs3)))))"

text \<open>The arguments of the \<^verbatim>\<open>print\<close> calls, and the text they put on standard output.\<close>

fun printed :: "io_event list \<Rightarrow> string list" where
  "printed [] = []"
| "printed (Print s # es) = s # printed es"
| "printed (Next # es) = printed es"

definition stdout_text :: "io_event list \<Rightarrow> string" where
  "stdout_text es = concat (map (\<lambda>l. l @ [CHR 0x0A]) (printed es))"

text \<open>
  For comparison with the output: the values separated by commas, and the shape of a
  JSON array whose tokens \<^verbatim>\<open>[\<close>, \<^verbatim>\<open>,\<close>, \<^verbatim>\<open>]\<close> and values stand one per printed line
  (\<open>ok\<close> says which lines are JSON values).
\<close>

fun commas :: "string list \<Rightarrow> string list" where
  "commas [] = []"
| "commas [x] = [x]"
| "commas (x # y # ys) = x # '','' # commas (y # ys)"

fun json_elements :: "(string \<Rightarrow> bool) \<Rightarrow> string list \<Rightarrow> bool" where
  "json_elements ok [v, c] = (ok v \<and> c = '']'')"
| "json_elements ok (v # s # rest) = (ok v \<and> s = '','' \<and> json_elements ok rest)"
| "json_elements ok _ = False"

definition json_array_lines :: "(string \<Rightarrow> bool) \<Rightarrow> string list \<Rightarrow> bool" where
  "json_array_lines ok ls =
     (case ls of [] \<Rightarrow> False | b # rest \<Rightarrow> b = ''['' \<and> (rest = ['']''] \<or> json_elements ok rest))"

section \<open>Properties of the paged search iterator\<close>

lemma IA_next_buffered:
  "docs self = d # ds \<Longrightarrow> IA_next api self = (Inr d, self\<lparr>docs := ds\<rparr>)"
  by (simp add: IA_next_def)

lemma IA_next_exhausted:
  "docs self = [] \<Longrightarrow> \<not> more_pages self \<Longrightarrow> IA_next api self = (Inl StopIteration, self)"
  by (simp add: IA_next_def)

lemma IA_fetch_next_page_server:
  "IA_fetch_next_page (search_server items) self =
     (None, self\<lparr> params := (params self)\<lparr>page := page (params self) + 1\<rparr>,
                  requested := requested self @ [page (params self) + 1],
                  docs := take (nat (rows (params self)))
                            (drop (nat (rows (params self) * page (params self))) items),
                  more_pages := (int (length items) > rows (params self) * (page (params self) + 1)) \<rparr>)"
  by (simp add: IA_fetch_next_page_def search_server_def Let_def)

lemma page_offset_step:
  "0 < P \<Longrightarrow> 0 \<le> p \<Longrightarrow> drop (nat (P * (p + 1))) xs = drop (nat P) (drop (nat (P * p)) xs)"
proof -
  assume a: "0 < P" "0 \<le> p"
  then have "0 \<le> P * p" by simp
  then have "nat (P * (p + 1)) = nat P + nat (P * p)"
    using a by (simp add: nat_add_distrib distrib_left)
  then show ?thesis by (simp add: add.commute)
qed

lemma drop_offset_Nil:
  "0 \<le> k \<Longrightarrow> (drop (nat k) xs = []) = (int (length xs) \<le> k)"
  by auto

lemma stops_at_step:
  "stops_at P N (p + 1) K \<Longrightarrow> P * (p + 1) < N \<Longrightarrow> stops_at P N p K"
  by (auto simp: stops_at_def algebra_simps)

lemma IA_traverse_server:
  assumes "0 < P" "rows (params self) = P" "0 \<le> page (params self)"
    and "\<not> more_pages self \<Longrightarrow> int (length items) \<le> P * page (params self)"
  shows "\<exists>self'. IA_traverse (search_server items) self acc =
           Some (None, acc @ docs self @ drop (nat (P * page (params self))) items, self')
         \<and> docs self' = [] \<and> \<not> more_pages self'
         \<and> rows (params self') = P \<and> q (params self') = q (params self)
         \<and> (((more_pages self) \<longrightarrow> stops_at P (int (length items)) (page (params self)) (page (params self'))
                \<and> requested self' = requested self @ [page (params self) + 1 .. page (params self')])
             \<and> (\<not> (more_pages self) \<longrightarrow> page (params self') = page (params self) \<and> requested self' = requested self))"
  using assms
proof (induction "length (docs self @ drop (nat (P * page (params self))) items)" arbitrary: self acc rule: less_induct)
  case less
  let ?p = "page (params self)"
  let ?N = "int (length items)"
  show ?case
  proof (cases "docs self")
    case (Cons d ds)
    let ?s = "self\<lparr>docs := ds\<rparr>"
    have n: "IA_next (search_server items) self = (Inr d, ?s)"
      using Cons by (rule IA_next_buffered)
    have "\<exists>self'. IA_traverse (search_server items) ?s (acc @ [d]) =
           Some (None, (acc @ [d]) @ docs ?s @ drop (nat (P * page (params ?s))) items, self')
         \<and> docs self' = [] \<and> \<not> more_pages self'
         \<and> rows (params self') = P \<and> q (params self') = q (params ?s)
         \<and> (((more_pages ?s) \<longrightarrow> stops_at P ?N (page (params ?s)) (page (params self'))
                \<and> requested self' = requested ?s @ [page (params ?s) + 1 .. page (params self')])
             \<and> (\<not> (more_pages ?s) \<longrightarrow> page (params self') = page (params ?s) \<and> requested self' = requested ?s))"
      apply (rule less.hyps)
      using less.prems Cons by simp_all
    then obtain self' where "IA_traverse (search_server items) ?s (acc @ [d]) =
           Some (None, (acc @ [d]) @ ds @ drop (nat (P * ?p)) items, self')"
         and "docs self' = []" "\<not> more_pages self'" "rows (params self') = P"
             "q (params self') = q (params self)"
         and "((more_pages self) \<longrightarrow> stops_at P ?N ?p (page (params self'))
                \<and> requested self' = requested self @ [?p + 1 .. page (params self')])
             \<and> (\<not> (more_pages self) \<longrightarrow> page (params self') = ?p \<and> requested self' = requested self)"
      by auto
    then show ?thesis using n Cons
      by (subst IA_traverse.simps) auto
  next
    case Nil
    show ?thesis
    proof (cases "more_pages self")
      case False
      then have "IA_next (search_server items) self = (Inl StopIteration, self)"
        using Nil by (simp add: IA_next_exhausted)
      moreover have "drop (nat (P * ?p)) items = []"
        using less.prems False by simp
      ultimately show ?thesis using Nil False less.prems
        by (subst IA_traverse.simps) simp
    next
      case True
      let ?rest = "drop (nat (P * ?p)) items"
      let ?f = "self\<lparr> params := (params self)\<lparr>page := ?p + 1\<rparr>,
                  requested := requested self @ [?p + 1],
                  docs := take (nat P) ?rest,
                  more_pages := (?N > P * (?p + 1)) \<rparr>"
      have f: "IA_fetch_next_page (search_server items) self = (None, ?f)"
        using less.prems(2) by (simp add: IA_fetch_next_page_server)
      have Pp: "0 \<le> P * ?p" using less.prems by simp
      show ?thesis
      proof (cases "take (nat P) ?rest")
        case Nil2: Nil
        then have r: "?rest = []" using less.prems(1) by (cases ?rest) (auto simp: take_Cons')
        then have le: "?N \<le> P * ?p" using Pp by (simp only: drop_offset_Nil [OF Pp])
        have le2: "?N \<le> P * (?p + 1)" using le less.prems(1) by (simp add: distrib_left)
        have "IA_next (search_server items) self = (Inl StopIteration, ?f)"
          using Nil True f Nil2 by (simp add: IA_next_def)
        then show ?thesis using Nil True r le2 less.prems Nil2
          by (subst IA_traverse.simps) (simp add: stops_at_def)
      next
        case (Cons d ds)
        let ?s = "?f\<lparr>docs := ds\<rparr>"
        have n: "IA_next (search_server items) self = (Inr d, ?s)"
          using Nil True f Cons by (simp add: IA_next_def)
        have split: "?rest = (d # ds) @ drop (nat (P * (?p + 1))) items"
          using Cons page_offset_step [OF less.prems(1) less.prems(3), of items]
          by (metis append_take_drop_id)
        have IH: "\<exists>self'. IA_traverse (search_server items) ?s (acc @ [d]) =
             Some (None, (acc @ [d]) @ docs ?s @ drop (nat (P * page (params ?s))) items, self')
           \<and> docs self' = [] \<and> \<not> more_pages self'
           \<and> rows (params self') = P \<and> q (params self') = q (params ?s)
           \<and> (((more_pages ?s) \<longrightarrow> stops_at P ?N (page (params ?s)) (page (params self'))
                  \<and> requested self' = requested ?s @ [page (params ?s) + 1 .. page (params self')])
               \<and> (\<not> (more_pages ?s) \<longrightarrow> page (params self') = page (params ?s) \<and> requested self' = requested ?s))"
          apply (rule less.hyps)
          using less.prems Nil split by simp_all
        then obtain self' where tr: "IA_traverse (search_server items) ?s (acc @ [d]) =
             Some (None, (acc @ [d]) @ ds @ drop (nat (P * (?p + 1))) items, self')"
           and e: "docs self' = []" "\<not> more_pages self'" "rows (params self') = P"
                  "q (params self') = q (params self)"
           and c: "((?N > P * (?p + 1)) \<longrightarrow> stops_at P ?N (?p + 1) (page (params self'))
                  \<and> requested self' = (requested self @ [?p + 1]) @ [?p + 1 + 1 .. page (params self')])
               \<and> (\<not> (?N > P * (?p + 1)) \<longrightarrow> page (params self') = ?p + 1 \<and> requested self' = requested self @ [?p + 1])"
          by auto
        have tr': "IA_traverse (search_server items) self acc =
             Some (None, acc @ docs self @ ?rest, self')"
          using n tr Nil split by (subst IA_traverse.simps) simp
        have pos: "0 < length (d # ds)" by simp
        have "?N > P * ?p"
        proof -
          have "?rest \<noteq> []" using split by simp
          then show ?thesis using drop_offset_Nil [OF Pp, of items] by simp
        qed
        have fin: "stops_at P ?N ?p (page (params self'))
                \<and> requested self' = requested self @ [?p + 1 .. page (params self')]"
        proof (cases "?N > P * (?p + 1)")
          case T: True
          then have s: "stops_at P ?N (?p + 1) (page (params self'))"
            and r: "requested self' = (requested self @ [?p + 1]) @ [?p + 1 + 1 .. page (params self')]"
            using c by simp_all
          have "stops_at P ?N ?p (page (params self'))"
            using s T by (rule stops_at_step)
          moreover have "?p + 1 \<le> page (params self')" using s by (simp add: stops_at_def)
          then have "[?p + 1 .. page (params self')] = (?p + 1) # [?p + 1 + 1 .. page (params self')]"
            by (simp add: upto_rec1)
          ultimately show ?thesis using r by simp
        next
          case F: False
          then have "page (params self') = ?p + 1" "requested self' = requested self @ [?p + 1]"
            using c by simp_all
          then show ?thesis using F by (simp add: stops_at_def)
        qed
        show ?thesis using tr' e fin True by auto
      qed
    qed
  qed
qed

lemma IA_fetch_flag:
  "more_pages (snd (IA_fetch_next_page (search_server items) self)) =
     (\<not> int (length items) \<le> page (params (snd (IA_fetch_next_page (search_server items) self))) * rows (params self))"
  by (simp add: IA_fetch_next_page_server mult.commute not_le)

text \<open>
  Claim C1. Against a server that reports \<open>numFound = N\<close> and returns each page in
  ranking order, an iterator built with page size \<open>P > 0\<close> (starting at page 1) yields in
  one traversal exactly the \<open>N\<close> items, in the server's order, and ends normally. The
  pages requested are \<open>1, ..., K\<close>, where \<open>K\<close> is the first page index with
  \<open>K * P \<ge> N\<close>; the flag is then false. Every fetch sets the flag to false exactly when
  the page index just fetched times the page size reaches \<open>N\<close>.
\<close>

theorem IA_traversal_yields_all:
  assumes "0 < P"
  shows "(\<exists>self'. IA_traverse (search_server items) (IA_iter (IA_init queries P 1)) [] =
             Some (None, items, self')
           \<and> docs self' = [] \<and> \<not> more_pages self'
           \<and> requested self' = [1 .. page (params self')]
           \<and> int (length items) \<le> page (params self') * P
           \<and> (page (params self') = 1 \<or> (page (params self') - 1) * P < int (length items)))
       \<and> (\<forall>self. rows (params self) = P \<longrightarrow>
             more_pages (snd (IA_fetch_next_page (search_server items) self)) =
             (\<not> int (length items) \<le> page (params (snd (IA_fetch_next_page (search_server items) self))) * P))"
proof -
  let ?s = "IA_iter (IA_init queries P 1) :: 'a IA"
  have "\<exists>self'. IA_traverse (search_server items) ?s [] =
           Some (None, [] @ docs ?s @ drop (nat (P * page (params ?s))) items, self')
         \<and> docs self' = [] \<and> \<not> more_pages self'
         \<and> rows (params self') = P \<and> q (params self') = q (params ?s)
         \<and> ((more_pages ?s \<longrightarrow> stops_at P (int (length items)) (page (params ?s)) (page (params self'))
                \<and> requested self' = requested ?s @ [page (params ?s) + 1 .. page (params self')])
             \<and> (\<not> more_pages ?s \<longrightarrow> page (params self') = page (params ?s) \<and> requested self' = requested ?s))"
    by (rule IA_traverse_server) (use assms in \<open>simp_all add: IA_iter_def IA_init_def\<close>)
  then have "\<exists>self'. IA_traverse (search_server items) ?s [] = Some (None, items, self')
           \<and> docs self' = [] \<and> \<not> more_pages self'
           \<and> requested self' = [1 .. page (params self')]
           \<and> int (length items) \<le> page (params self') * P
           \<and> (page (params self') = 1 \<or> (page (params self') - 1) * P < int (length items))"
    by (auto simp: IA_iter_def IA_init_def stops_at_def mult.commute)
  moreover have "\<forall>self::'a IA. rows (params self) = P \<longrightarrow>
             more_pages (snd (IA_fetch_next_page (search_server items) self)) =
             (\<not> int (length items) \<le> page (params (snd (IA_fetch_next_page (search_server items) self))) * P)"
    using IA_fetch_flag [of items] by auto
  ultimately show ?thesis by blast
qed

text \<open>
  The scenario of 120 matches and page size 50: three fetches (pages 1, 2, 3) and all
  120 items in order.
\<close>

theorem IA_traversal_yields_all_witness:
  "(0::int) < 50 \<and>
   (\<exists>self'. IA_traverse (search_server [0..<120])
               (IA_iter (IA_init [(''collection'', ''c''), (''mediatype'', ''texts'')] 50 1)) [] =
             Some (None, [0..<120], self')
           \<and> docs self' = [] \<and> \<not> more_pages self' \<and> requested self' = [1, 2, 3])"
proof -
  obtain self' where t: "IA_traverse (search_server [0..<120])
               (IA_iter (IA_init [(''collection'', ''c''), (''mediatype'', ''texts'')] 50 1)) [] =
             Some (None, [0..<120], self')"
    and d: "docs self' = []" "\<not> more_pages self'"
    and r: "requested self' = [1 .. page (params self')]"
    and k: "int (length [0..<120]) \<le> page (params self') * 50"
           "page (params self') = 1 \<or> (page (params self') - 1) * 50 < int (length [0..<120])"
    using IA_traversal_yields_all [of 50 "[0..<120]" "[(''collection'', ''c''), (''mediatype'', ''texts'')]"]
    by auto
  have "page (params self') = 3" using k by simp
  then have "requested self' = [1, 2, 3]" using r by (simp add: upto.simps)
  then show ?thesis using t d by auto
qed

text \<open>
  Claim C2. With a page size of zero, or with a query that has no match, the first
  \<^verbatim>\<open>__next__\<close> of a traversal sends one request (page 1), raises
  \<^verbatim>\<open>StopIteration\<close> and no other exception, and the traversal ends there with
  nothing yielded and no further request.
\<close>

theorem IA_empty_terminates:
  assumes "P = 0 \<or> items = []"
  shows "IA_next (search_server items) (IA_iter (IA_init queries P 1)) =
           (Inl StopIteration,
            \<lparr> params = \<lparr> q = join '' AND '' (map format_query queries), rows = P, page = 1 \<rparr>,
              docs = [], more_pages = (P < int (length items)), requested = [1] \<rparr>)
       \<and> IA_traverse (search_server items) (IA_iter (IA_init queries P 1)) [] =
           Some (None, [],
            \<lparr> params = \<lparr> q = join '' AND '' (map format_query queries), rows = P, page = 1 \<rparr>,
              docs = [], more_pages = (P < int (length items)), requested = [1] \<rparr>)"
  using assms
  by (subst IA_traverse.simps) (auto simp: IA_next_def IA_fetch_next_page_server IA_iter_def IA_init_def)

theorem IA_empty_terminates_witness:
  "IA_traverse (search_server ''abc'') (IA_iter (IA_init [(''collection'', ''c'')] 0 1)) [] =
     Some (None, [],
       \<lparr> params = \<lparr> q = ''collection:(c)'', rows = 0, page = 1 \<rparr>,
         docs = [], more_pages = True, requested = [1] \<rparr>)
   \<and> IA_traverse (search_server ([] :: string)) (IA_iter (IA_init [(''collection'', ''c'')] 50 1)) [] =
     Some (None, [],
       \<lparr> params = \<lparr> q = ''collection:(c)'', rows = 50, page = 1 \<rparr>,
         docs = [], more_pages = False, requested = [1] \<rparr>)"
  using IA_empty_terminates [of 0 "''abc''" "[(''collection'', ''c'')]"]
        IA_empty_terminates [of 50 "[] :: string" "[(''collection'', ''c'')]"]
  by (simp add: format_query_def)

text \<open>
  Claim C3. \<^verbatim>\<open>__iter__\<close> empties the buffer and sets the flag, but leaves the page
  number where the first traversal stopped. With three items and page size 2 the first
  traversal requests pages 1 and 2 and yields the three items; after \<^verbatim>\<open>iter()\<close> the
  second traversal requests page 3, receives nothing and yields nothing.
\<close>

theorem IA_reiterate_continues_paging:
  "IA_traverse (search_server ''abc'') (IA_iter (IA_init [] 2 1)) [] =
     Some (None, ''abc'',
       \<lparr> params = \<lparr> q = [], rows = 2, page = 2 \<rparr>, docs = [], more_pages = False,
         requested = [1, 2] \<rparr>)
   \<and> IA_traverse (search_server ''abc'')
       (IA_iter \<lparr> params = \<lparr> q = [], rows = 2, page = 2 \<rparr>, docs = [], more_pages = False,
                  requested = [1, 2] \<rparr>) [] =
     Some (None, [],
       \<lparr> params = \<lparr> q = [], rows = 2, page = 3 \<rparr>, docs = [], more_pages = False,
         requested = [1, 2, 3] \<rparr>)"
  by (simp add: IA_traverse.simps IA_next_def IA_fetch_next_page_server IA_iter_def IA_init_def)

section \<open>Properties of the regular expressions\<close>

text \<open>Running the items forwards: a literal run, and a greedy class that takes a whole run.\<close>

lemma first_some_hit: "0 < n \<Longrightarrow> f n = Some r \<Longrightarrow> first_some f n = Some r"
  by (cases n) simp_all

lemma takeWhile_run:
  "list_all p xs \<Longrightarrow> takeWhile p ys = [] \<Longrightarrow> takeWhile p (xs @ ys) = xs"
  by (induction xs) simp_all

lemma re_run_Many:
  assumes "xs \<noteq> []" "list_all p xs" "takeWhile p ys = []" "re_run its ys False g = Some r"
  shows "re_run (Many p # its) (xs @ ys) b g = Some r"
proof -
  have "length (takeWhile p (xs @ ys)) = length xs"
    using assms(2,3) by (simp add: takeWhile_run)
  then show ?thesis using assms(1,4)
    by (simp add: first_some_hit)
qed

lemma re_run_Cap:
  assumes "xs \<noteq> []" "list_all p xs" "takeWhile p ys = []" "re_run its ys False (Some xs) = Some r"
  shows "re_run (Cap p # its) (xs @ ys) b g = Some r"
proof -
  have "length (takeWhile p (xs @ ys)) = length xs"
    using assms(2,3) by (simp add: takeWhile_run)
  then show ?thesis using assms(1,4)
    by (simp add: first_some_hit)
qed

lemma takeWhile_stops: "ys \<noteq> [] \<Longrightarrow> \<not> p (hd ys) \<Longrightarrow> takeWhile p (ys @ zs) = []"
  by (cases ys) simp_all

lemma re_run_lit:
  "l \<noteq> [] \<Longrightarrow> re_run (lit l @ its) (l @ rest) b g = re_run its rest False g"
proof (induction l arbitrary: b)
  case Nil
  then show ?case by simp
next
  case (Cons x l)
  show ?case
  proof (cases "l = []")
    case True
    then show ?thesis by (simp add: lit_def)
  next
    case False
    then have "re_run (lit l @ its) (l @ rest) False g = re_run its rest False g"
      by (rule Cons.IH)
    then show ?thesis by (simp add: lit_def)
  qed
qed

lemma re_run_One: "p c \<Longrightarrow> re_run (One p # its) (c # cs) b g = re_run its cs False g"
  by simp

text \<open>Reading a match backwards: what each item must have consumed.\<close>

lemma first_some_SomeD:
  "first_some f n = Some r \<Longrightarrow> \<exists>k. 0 < k \<and> k \<le> n \<and> f k = Some r"
proof (induction n)
  case 0
  then show ?case by simp
next
  case (Suc n)
  show ?case
  proof (cases "f (Suc n)")
    case None
    then have "first_some f n = Some r" using Suc.prems by simp
    then obtain k where "0 < k" "k \<le> n" "f k = Some r" using Suc.IH by blast
    then show ?thesis by (intro exI [of _ k]) simp
  next
    case (Some a)
    then have "f (Suc n) = Some r" using Suc.prems by simp
    then show ?thesis by (intro exI [of _ "Suc n"]) simp
  qed
qed

lemma re_run_OneD:
  "re_run (One p # its) s b g = Some r \<Longrightarrow> \<exists>c cs. s = c # cs \<and> p c \<and> re_run its cs False g = Some r"
  by (cases s) (simp_all split: if_splits)

lemma re_run_litD:
  "l \<noteq> [] \<Longrightarrow> re_run (lit l @ its) s b g = Some r \<Longrightarrow> \<exists>rest. s = l @ rest \<and> re_run its rest False g = Some r"
proof (induction l arbitrary: s b)
  case Nil
  then show ?case by simp
next
  case (Cons x l)
  from Cons.prems(2) have "re_run (One (\<lambda>c. c = x) # lit l @ its) s b g = Some r"
    by (simp add: lit_def)
  then obtain cs where s: "s = x # cs" and r: "re_run (lit l @ its) cs False g = Some r"
    using re_run_OneD by blast
  show ?case
  proof (cases "l = []")
    case True
    then show ?thesis using s r by (simp add: lit_def)
  next
    case False
    then obtain rest where "cs = l @ rest" "re_run its rest False g = Some r"
      using Cons.IH r by blast
    then show ?thesis using s by simp
  qed
qed

lemma re_run_CapD:
  assumes "re_run (Cap p # its) s b g = Some r"
  shows "\<exists>c rest. s = c @ rest \<and> c \<noteq> [] \<and> list_all p c \<and> re_run its rest False (Some c) = Some r"
proof -
  from assms obtain k where k: "0 < k" "k \<le> length (takeWhile p s)"
      and r: "re_run its (drop k s) False (Some (take k s)) = Some r"
    using first_some_SomeD [of "\<lambda>k. re_run its (drop k s) False (Some (take k s))"] by auto
  have "take k s = take k (takeWhile p s)"
    using k(2) by (metis append_eq_conv_conj takeWhile_dropWhile_id take_append take_all_iff
        append_take_drop_id length_take min.absorb2 take_take)
  then have "list_all p (take k s)"
    by (metis in_set_takeD list_all_iff set_takeWhileD)
  moreover have "take k s \<noteq> []" using k by auto
  ultimately show ?thesis using r
    by (intro exI [of _ "take k s"] exI [of _ "drop k s"]) simp
qed

lemma re_run_ManyD:
  assumes "re_run (Many p # its) s b g = Some r"
  shows "\<exists>c rest. s = c @ rest \<and> c \<noteq> [] \<and> list_all p c \<and> re_run its rest False g = Some r"
proof -
  from assms obtain k where k: "0 < k" "k \<le> length (takeWhile p s)"
      and r: "re_run its (drop k s) False g = Some r"
    using first_some_SomeD [of "\<lambda>k. re_run its (drop k s) False g"] by auto
  have "take k s = take k (takeWhile p s)"
    using k(2) by (metis append_eq_conv_conj takeWhile_dropWhile_id take_append take_all_iff
        append_take_drop_id length_take min.absorb2 take_take)
  then have "list_all p (take k s)"
    by (metis in_set_takeD list_all_iff set_takeWhileD)
  moreover have "take k s \<noteq> []" using k by auto
  ultimately show ?thesis using r
    by (intro exI [of _ "take k s"] exI [of _ "drop k s"]) simp
qed

subsection \<open>The structured identifier pattern\<close>

lemma alnum_not_underscore: "alnum c \<Longrightarrow> \<not> underscore c"
  by (auto simp: alnum_def underscore_def in_range_def)

lemma digit_not_underscore: "digit c \<Longrightarrow> \<not> underscore c"
  by (auto simp: digit_def underscore_def in_range_def)

lemma underscore_not_alnum: "underscore c \<Longrightarrow> \<not> alnum c"
  by (auto simp: alnum_def underscore_def in_range_def)

lemma hd_list_all: "xs \<noteq> [] \<Longrightarrow> list_all p xs \<Longrightarrow> p (hd xs)"
  by (cases xs) simp_all

lemma CLIO_DERIVED_ID_match_newline:
  assumes "us1 \<noteq> []" "list_all underscore us1"
    and "seg \<noteq> []" "list_all alnum seg"
    and "us2 \<noteq> []" "list_all underscore us2"
    and "num \<noteq> []" "list_all digit num"
    and "nl = [] \<or> nl = [CHR 0x0A]"
  shows "re_match CLIO_DERIVED_ID (''ldpd'' @ us1 @ seg @ us2 @ num @ nl) = Some (Some seg)"
proof -
  let ?g = "Some seg"
  have nl: "takeWhile digit nl = []"
    using assms(9) by (auto simp: digit_def in_range_def)
  have 0: "re_run [Eol] nl False ?g = Some ?g"
    using assms(9) by auto
  have 1: "re_run [Many digit, Eol] (num @ nl) False ?g = Some ?g"
    using assms(7,8) nl 0 by (rule re_run_Many)
  have "\<not> underscore (hd num)"
    using assms(7,8) by (simp add: hd_list_all digit_not_underscore)
  then have tw2: "takeWhile underscore (num @ nl) = []"
    using assms(7) by (intro takeWhile_stops)
  have 2: "re_run [Many underscore, Many digit, Eol] (us2 @ num @ nl) False ?g = Some ?g"
    by (rule re_run_Many [OF assms(5) assms(6) tw2 1])
  have "\<not> alnum (hd us2)"
    using assms(5,6) by (simp add: hd_list_all underscore_not_alnum)
  then have tw3: "takeWhile alnum (us2 @ num @ nl) = []"
    using assms(5) by (intro takeWhile_stops)
  have 3: "re_run [Cap alnum, Many underscore, Many digit, Eol] (seg @ us2 @ num @ nl) False None = Some ?g"
    by (rule re_run_Cap [OF assms(3) assms(4) tw3 2])
  have "\<not> underscore (hd seg)"
    using assms(3,4) by (simp add: hd_list_all alnum_not_underscore)
  then have tw4: "takeWhile underscore (seg @ us2 @ num @ nl) = []"
    using assms(3) by (intro takeWhile_stops)
  have 4: "re_run [Many underscore, Cap alnum, Many underscore, Many digit, Eol]
             (us1 @ seg @ us2 @ num @ nl) False None = Some ?g"
    by (rule re_run_Many [OF assms(1) assms(2) tw4 3])
  define rest where "rest = us1 @ seg @ us2 @ num @ nl"
  have "re_run [Many underscore, Cap alnum, Many underscore, Many digit, Eol] rest False None = Some ?g"
    using 4 by (simp only: rest_def)
  then have "re_match CLIO_DERIVED_ID (''ldpd'' @ rest) = Some ?g"
    by (simp add: re_match_def CLIO_DERIVED_ID_def lit_def)
  then show ?thesis by (simp only: rest_def)
qed

lemma CLIO_DERIVED_ID_matchD:
  assumes "re_match CLIO_DERIVED_ID s = Some g"
  shows "\<exists>us1 seg us2 num nl. g = Some seg \<and> s = ''ldpd'' @ us1 @ seg @ us2 @ num @ nl
           \<and> us1 \<noteq> [] \<and> list_all underscore us1 \<and> seg \<noteq> [] \<and> list_all alnum seg
           \<and> us2 \<noteq> [] \<and> list_all underscore us2 \<and> num \<noteq> [] \<and> list_all digit num
           \<and> (nl = [] \<or> nl = [CHR 0x0A])"
proof -
  define l where "l = ''ldpd''"
  have ne: "l \<noteq> []" by (simp add: l_def)
  have "CLIO_DERIVED_ID = Bol # lit l @ [Many underscore, Cap alnum, Many underscore, Many digit, Eol]"
    by (simp add: CLIO_DERIVED_ID_def l_def)
  then have "re_run (Bol # lit l @ [Many underscore, Cap alnum, Many underscore, Many digit, Eol]) s True None
      = Some g"
    using assms by (simp only: re_match_def)
  then have r0: "re_run (lit l @ [Many underscore, Cap alnum, Many underscore, Many digit, Eol]) s True None
      = Some g"
    by simp
  have "\<exists>rest. s = l @ rest \<and>
      re_run [Many underscore, Cap alnum, Many underscore, Many digit, Eol] rest False None = Some g"
    using ne r0 by (rule re_run_litD)
  then obtain s1 where 1: "s = l @ s1"
    and r1: "re_run (Many underscore # [Cap alnum, Many underscore, Many digit, Eol]) s1 False None = Some g"
    by (elim exE conjE)
  have "\<exists>c rest. s1 = c @ rest \<and> c \<noteq> [] \<and> list_all underscore c \<and>
      re_run [Cap alnum, Many underscore, Many digit, Eol] rest False None = Some g"
    using r1 by (rule re_run_ManyD)
  then obtain us1 s2 where 2: "s1 = us1 @ s2" "us1 \<noteq> []" "list_all underscore us1"
    and r2: "re_run (Cap alnum # [Many underscore, Many digit, Eol]) s2 False None = Some g"
    by (elim exE conjE)
  have "\<exists>c rest. s2 = c @ rest \<and> c \<noteq> [] \<and> list_all alnum c \<and>
      re_run [Many underscore, Many digit, Eol] rest False (Some c) = Some g"
    using r2 by (rule re_run_CapD)
  then obtain seg s3 where 3: "s2 = seg @ s3" "seg \<noteq> []" "list_all alnum seg"
    and r3: "re_run (Many underscore # [Many digit, Eol]) s3 False (Some seg) = Some g"
    by (elim exE conjE)
  have "\<exists>c rest. s3 = c @ rest \<and> c \<noteq> [] \<and> list_all underscore c \<and>
      re_run [Many digit, Eol] rest False (Some seg) = Some g"
    using r3 by (rule re_run_ManyD)
  then obtain us2 s4 where 4: "s3 = us2 @ s4" "us2 \<noteq> []" "list_all underscore us2"
    and r4: "re_run (Many digit # [Eol]) s4 False (Some seg) = Some g"
    by (elim exE conjE)
  have "\<exists>c rest. s4 = c @ rest \<and> c \<noteq> [] \<and> list_all digit c \<and>
      re_run [Eol] rest False (Some seg) = Some g"
    using r4 by (rule re_run_ManyD)
  then obtain num nl where 5: "s4 = num @ nl" "num \<noteq> []" "list_all digit num"
    and r5: "re_run [Eol] nl False (Some seg) = Some g"
    by (elim exE conjE)
  from r5 have 6: "nl = [] \<or> nl = [CHR 0x0A]" and g: "g = Some seg"
    by (simp_all split: if_splits)
  have "s = ''ldpd'' @ us1 @ seg @ us2 @ num @ nl"
    by (simp only: 1 2(1) 3(1) 4(1) 5(1) l_def)
  then show ?thesis using g 2(2,3) 3(2,3) 4(2,3) 5(2,3) 6 by blast
qed

text \<open>
  \<^verbatim>\<open>CLIO_DERIVED_ID\<close> matches exactly the identifiers that read \<^verbatim>\<open>ldpd\<close>, underscores,
  an alphanumeric segment (group 1), underscores, digits, and at most one final newline.
\<close>

lemma CLIO_DERIVED_ID_match_iff:
  "re_match CLIO_DERIVED_ID s = Some g \<longleftrightarrow>
     (\<exists>us1 seg us2 num nl. g = Some seg \<and> s = ''ldpd'' @ us1 @ seg @ us2 @ num @ nl
           \<and> us1 \<noteq> [] \<and> list_all underscore us1 \<and> seg \<noteq> [] \<and> list_all alnum seg
           \<and> us2 \<noteq> [] \<and> list_all underscore us2 \<and> num \<noteq> [] \<and> list_all digit num
           \<and> (nl = [] \<or> nl = [CHR 0x0A]))"
proof
  assume "re_match CLIO_DERIVED_ID s = Some g"
  then show "\<exists>us1 seg us2 num nl. g = Some seg \<and> s = ''ldpd'' @ us1 @ seg @ us2 @ num @ nl
           \<and> us1 \<noteq> [] \<and> list_all underscore us1 \<and> seg \<noteq> [] \<and> list_all alnum seg
           \<and> us2 \<noteq> [] \<and> list_all underscore us2 \<and> num \<noteq> [] \<and> list_all digit num
           \<and> (nl = [] \<or> nl = [CHR 0x0A])"
    by (rule CLIO_DERIVED_ID_matchD)
next
  assume "\<exists>us1 seg us2 num nl. g = Some seg \<and> s = ''ldpd'' @ us1 @ seg @ us2 @ num @ nl
           \<and> us1 \<noteq> [] \<and> list_all underscore us1 \<and> seg \<noteq> [] \<and> list_all alnum seg
           \<and> us2 \<noteq> [] \<and> list_all underscore us2 \<and> num \<noteq> [] \<and> list_all digit num
           \<and> (nl = [] \<or> nl = [CHR 0x0A])"
  then obtain us1 seg us2 num nl where g: "g = Some seg" and s: "s = ''ldpd'' @ us1 @ seg @ us2 @ num @ nl"
    and c: "us1 \<noteq> []" "list_all underscore us1" "seg \<noteq> []" "list_all alnum seg"
           "us2 \<noteq> []" "list_all underscore us2" "num \<noteq> []" "list_all digit num"
           "nl = [] \<or> nl = [CHR 0x0A]"
    by blast
  show "re_match CLIO_DERIVED_ID s = Some g"
    unfolding s g using c by (rule CLIO_DERIVED_ID_match_newline)
qed

lemma CLIO_DERIVED_ID_match:
  assumes "us1 \<noteq> []" "list_all underscore us1"
    and "seg \<noteq> []" "list_all alnum seg"
    and "us2 \<noteq> []" "list_all underscore us2"
    and "num \<noteq> []" "list_all digit num"
  shows "re_match CLIO_DERIVED_ID (''ldpd'' @ us1 @ seg @ us2 @ num) = Some (Some seg)"
  using CLIO_DERIVED_ID_match_newline [OF assms, of "[]"] by simp

subsection \<open>The link pattern\<close>

text \<open>
  A pattern of the form of \<^verbatim>\<open>CLIO_LINK\<close>, over arbitrary literal runs: what it
  matches, in both directions.
\<close>

lemma link_shape:
  assumes "re_run (lit l1 @ One d1 # lit l2 @ One d2 # lit l3 @ Cap p # lit l4) s b None = Some g"
    and "l1 \<noteq> []" "l2 \<noteq> []" "l3 \<noteq> []" "l4 \<noteq> []"
  shows "\<exists>c1 c2 c post. g = Some c \<and> c \<noteq> [] \<and> list_all p c \<and> d1 c1 \<and> d2 c2 \<and>
           s = l1 @ [c1] @ l2 @ [c2] @ l3 @ c @ l4 @ post"
proof -
  have "\<exists>rest. s = l1 @ rest \<and>
      re_run (One d1 # lit l2 @ One d2 # lit l3 @ Cap p # lit l4) rest False None = Some g"
    using assms(2) assms(1) by (rule re_run_litD)
  then obtain s1 where 1: "s = l1 @ s1"
    and r1: "re_run (One d1 # lit l2 @ One d2 # lit l3 @ Cap p # lit l4) s1 False None = Some g"
    by (elim exE conjE)
  have "\<exists>c cs. s1 = c # cs \<and> d1 c \<and>
      re_run (lit l2 @ One d2 # lit l3 @ Cap p # lit l4) cs False None = Some g"
    using r1 by (rule re_run_OneD)
  then obtain c1 s2 where 2: "s1 = c1 # s2" and d1: "d1 c1"
    and r2: "re_run (lit l2 @ One d2 # lit l3 @ Cap p # lit l4) s2 False None = Some g"
    by (elim exE conjE)
  have "\<exists>rest. s2 = l2 @ rest \<and> re_run (One d2 # lit l3 @ Cap p # lit l4) rest False None = Some g"
    using assms(3) r2 by (rule re_run_litD)
  then obtain s3 where 3: "s2 = l2 @ s3"
    and r3: "re_run (One d2 # lit l3 @ Cap p # lit l4) s3 False None = Some g"
    by (elim exE conjE)
  have "\<exists>c cs. s3 = c # cs \<and> d2 c \<and> re_run (lit l3 @ Cap p # lit l4) cs False None = Some g"
    using r3 by (rule re_run_OneD)
  then obtain c2 s4 where 4: "s3 = c2 # s4" and d2: "d2 c2"
    and r4: "re_run (lit l3 @ Cap p # lit l4) s4 False None = Some g"
    by (elim exE conjE)
  have "\<exists>rest. s4 = l3 @ rest \<and> re_run (Cap p # lit l4) rest False None = Some g"
    using assms(4) r4 by (rule re_run_litD)
  then obtain s5 where 5: "s4 = l3 @ s5"
    and r5: "re_run (Cap p # lit l4) s5 False None = Some g"
    by (elim exE conjE)
  have "\<exists>c rest. s5 = c @ rest \<and> c \<noteq> [] \<and> list_all p c \<and>
      re_run (lit l4) rest False (Some c) = Some g"
    using r5 by (rule re_run_CapD)
  then obtain c s6 where 6: "s5 = c @ s6" "c \<noteq> []" "list_all p c"
    and r6: "re_run (lit l4) s6 False (Some c) = Some g"
    by (elim exE conjE)
  from r6 have r6': "re_run (lit l4 @ []) s6 False (Some c) = Some g"
    by (simp only: append_Nil2)
  have "\<exists>rest. s6 = l4 @ rest \<and> re_run [] rest False (Some c) = Some g"
    using assms(5) r6' by (rule re_run_litD)
  then obtain post where 7: "s6 = l4 @ post" and r7: "re_run [] post False (Some c) = Some g"
    by (elim exE conjE)
  from r7 have g: "g = Some c" by simp
  have "s = l1 @ [c1] @ l2 @ [c2] @ l3 @ c @ l4 @ post"
    by (simp only: 1 2 3 4 5 6 7 append_Cons append_Nil)
  then show ?thesis using g 6(2,3) d1 d2 by blast
qed

lemma link_shape_run:
  assumes "l1 \<noteq> []" "l2 \<noteq> []" "l3 \<noteq> []" "l4 \<noteq> []" "\<not> p (hd l4)"
    and "c \<noteq> []" "list_all p c" "d1 c1" "d2 c2"
  shows "re_run (lit l1 @ One d1 # lit l2 @ One d2 # lit l3 @ Cap p # lit l4)
           (l1 @ [c1] @ l2 @ [c2] @ l3 @ c @ l4 @ post) b None = Some (Some c)"
proof -
  have "re_run (lit l4 @ []) (l4 @ post) False (Some c) = re_run [] post False (Some c)"
    using assms(4) by (rule re_run_lit)
  then have 7: "re_run (lit l4) (l4 @ post) False (Some c) = Some (Some c)"
    by simp
  have "takeWhile p (l4 @ post) = []"
    using assms(4,5) by (rule takeWhile_stops)
  then have 6: "re_run (Cap p # lit l4) (c @ l4 @ post) False None = Some (Some c)"
    using assms(6,7) 7 by (intro re_run_Cap)
  have 5: "re_run (lit l3 @ Cap p # lit l4) (l3 @ c @ l4 @ post) False None = Some (Some c)"
    using re_run_lit [OF assms(3)] 6 by simp
  have 4: "re_run (One d2 # lit l3 @ Cap p # lit l4) (c2 # l3 @ c @ l4 @ post) False None = Some (Some c)"
    using re_run_One [of d2 c2] assms(9) 5 by simp
  have 3: "re_run (lit l2 @ One d2 # lit l3 @ Cap p # lit l4) (l2 @ c2 # l3 @ c @ l4 @ post) False None
             = Some (Some c)"
    using re_run_lit [OF assms(2)] 4 by simp
  have 2: "re_run (One d1 # lit l2 @ One d2 # lit l3 @ Cap p # lit l4)
             (c1 # l2 @ c2 # l3 @ c @ l4 @ post) False None = Some (Some c)"
    using re_run_One [of d1 c1] assms(8) 3 by simp
  have "re_run (lit l1 @ One d1 # lit l2 @ One d2 # lit l3 @ Cap p # lit l4)
             (l1 @ c1 # l2 @ c2 # l3 @ c @ l4 @ post) b None = Some (Some c)"
    using re_run_lit [OF assms(1)] 2 by simp
  then show ?thesis by simp
qed

text \<open>
  \<^verbatim>\<open>CLIO_LINK\<close> matches at a position exactly when the text there reads: a double quote,
  \<^verbatim>\<open>http://clio\<close>, one character that is no newline, \<^verbatim>\<open>columbia\<close>, one character
  that is no newline, \<^verbatim>\<open>edu/catalog/\<close>, a non-empty alphanumeric run (group 1), a
  double quote. The two single characters are the unescaped dots of the pattern.
\<close>

lemma CLIO_LINK_match_iff:
  "re_run CLIO_LINK s b None = Some g \<longleftrightarrow>
     (\<exists>c1 c2 c post. g = Some c \<and> c \<noteq> [] \<and> list_all alnum c \<and> dot c1 \<and> dot c2 \<and>
        s = CHR 0x22 # ''http://clio'' @ [c1] @ ''columbia'' @ [c2] @ ''edu/catalog/'' @ c @ CHR 0x22 # post)"
proof -
  define l1 where "l1 = CHR 0x22 # ''http://clio''"
  define l2 where "l2 = ''columbia''"
  define l3 where "l3 = ''edu/catalog/''"
  define l4 where "l4 = [CHR 0x22]"
  have ne: "l1 \<noteq> []" "l2 \<noteq> []" "l3 \<noteq> []" "l4 \<noteq> []"
    by (simp_all add: l1_def l2_def l3_def l4_def)
  have q: "\<not> alnum (hd l4)" by (simp add: l4_def alnum_def in_range_def)
  have pat: "CLIO_LINK = lit l1 @ One dot # lit l2 @ One dot # lit l3 @ Cap alnum # lit l4"
    by (simp add: CLIO_LINK_def l1_def l2_def l3_def l4_def)
  have str: "CHR 0x22 # ''http://clio'' @ [c1] @ ''columbia'' @ [c2] @ ''edu/catalog/'' @ c @ CHR 0x22 # post
      = l1 @ [c1] @ l2 @ [c2] @ l3 @ c @ l4 @ post" for c1 c2 c post
    by (simp add: l1_def l2_def l3_def l4_def)
  show ?thesis
  proof
    assume "re_run CLIO_LINK s b None = Some g"
    then have "re_run (lit l1 @ One dot # lit l2 @ One dot # lit l3 @ Cap alnum # lit l4) s b None = Some g"
      by (simp only: pat)
    from link_shape [OF this ne]
    obtain c1 c2 c post where "g = Some c" "c \<noteq> []" "list_all alnum c" "dot c1" "dot c2"
        "s = l1 @ [c1] @ l2 @ [c2] @ l3 @ c @ l4 @ post"
      by blast
    then show "\<exists>c1 c2 c post. g = Some c \<and> c \<noteq> [] \<and> list_all alnum c \<and> dot c1 \<and> dot c2 \<and>
        s = CHR 0x22 # ''http://clio'' @ [c1] @ ''columbia'' @ [c2] @ ''edu/catalog/'' @ c @ CHR 0x22 # post"
      unfolding str by blast
  next
    assume "\<exists>c1 c2 c post. g = Some c \<and> c \<noteq> [] \<and> list_all alnum c \<and> dot c1 \<and> dot c2 \<and>
        s = CHR 0x22 # ''http://clio'' @ [c1] @ ''columbia'' @ [c2] @ ''edu/catalog/'' @ c @ CHR 0x22 # post"
    then obtain c1 c2 c post where g: "g = Some c" and c: "c \<noteq> []" "list_all alnum c" "dot c1" "dot c2"
      and s: "s = l1 @ [c1] @ l2 @ [c2] @ l3 @ c @ l4 @ post"
      unfolding str by blast
    show "re_run CLIO_LINK s b None = Some g"
      unfolding pat s g using ne q c by (rule link_shape_run)
  qed
qed

lemma CLIO_LINK_run:
  assumes "cid \<noteq> []" "list_all alnum cid"
  shows "re_run CLIO_LINK (quoted_catalog_url cid @ post) b None = Some (Some cid)"
proof -
  have "dot CHR ''.''" by (simp add: dot_def)
  then have "\<exists>c1 c2 c p. Some cid = Some c \<and> c \<noteq> [] \<and> list_all alnum c \<and> dot c1 \<and> dot c2 \<and>
      quoted_catalog_url cid @ post =
        CHR 0x22 # ''http://clio'' @ [c1] @ ''columbia'' @ [c2] @ ''edu/catalog/'' @ c @ CHR 0x22 # p"
    using assms
    by (intro exI [of _ "CHR ''.''"] exI [of _ cid] exI [of _ post]) (simp add: quoted_catalog_url_def)
  then show ?thesis by (simp only: CLIO_LINK_match_iff)
qed

lemma CLIO_LINK_needs_quote: "c \<noteq> CHR 0x22 \<Longrightarrow> re_run CLIO_LINK (c # cs) b None = None"
  by (simp add: CLIO_LINK_def lit_def)

text \<open>\<^verbatim>\<open>search\<close> returns the leftmost match.\<close>

lemma re_search_from_leftmost:
  assumes "\<And>j. j < length pre \<Longrightarrow> re_run pat (drop j (pre @ rest)) (b \<and> j = 0) None = None"
    and "re_run pat rest (b \<and> pre = []) None = Some g"
  shows "re_search_from pat (pre @ rest) b = Some g"
  using assms
proof (induction pre arbitrary: b)
  case Nil
  then show ?case by simp
next
  case (Cons c pre)
  have 0: "re_run pat (c # pre @ rest) b None = None"
    using Cons.prems(1) [of 0] by simp
  have "re_search_from pat (pre @ rest) False = Some g"
  proof (rule Cons.IH)
    fix j assume "j < length pre"
    then show "re_run pat (drop j (pre @ rest)) (False \<and> j = 0) None = None"
      using Cons.prems(1) [of "Suc j"] by simp
  next
    show "re_run pat rest (False \<and> pre = []) None = Some g"
      using Cons.prems(2) by simp
  qed
  then show ?case using 0 by simp
qed

lemma no_link_before_iff:
  "no_link_before s n \<longleftrightarrow> (\<forall>j<n. re_run CLIO_LINK (drop j s) (j = 0) None = None)"
  by (auto simp: no_link_before_def link_starts_at_def list_all_iff)

lemma CLIO_LINK_search_first:
  assumes "cid \<noteq> []" "list_all alnum cid"
    and "no_link_before (pre @ quoted_catalog_url cid @ post) (length pre)"
  shows "re_search CLIO_LINK (pre @ quoted_catalog_url cid @ post) = Some (Some cid)"
  unfolding re_search_def
proof (rule re_search_from_leftmost)
  fix j assume "j < length pre"
  then show "re_run CLIO_LINK (drop j (pre @ quoted_catalog_url cid @ post)) (True \<and> j = 0) None = None"
    using assms(3) by (simp add: no_link_before_iff)
next
  show "re_run CLIO_LINK (quoted_catalog_url cid @ post) (True \<and> pre = []) None = Some (Some cid)"
    using assms(1,2) by (rule CLIO_LINK_run)
qed

lemma no_link_before_quote:
  assumes "CHR 0x22 \<notin> set pre"
  shows "no_link_before (pre @ rest) (length pre)"
  unfolding no_link_before_iff
proof (intro allI impI)
  fix j assume j: "j < length pre"
  then have "drop j (pre @ rest) = pre ! j # drop (Suc j) pre @ rest"
    by (simp add: Cons_nth_drop_Suc)
  moreover have "pre ! j \<noteq> CHR 0x22" using assms j by (metis nth_mem)
  ultimately show "re_run CLIO_LINK (drop j (pre @ rest)) (j = 0) None = None"
    by (simp add: CLIO_LINK_needs_quote)
qed

lemma CLIO_LINK_search_empty: "re_search CLIO_LINK [] = None"
  by (simp add: re_search_def CLIO_LINK_def lit_def)

text \<open>
  The two dots of the host name are not escaped in the source: any character but a
  newline is accepted in their place.
\<close>

lemma CLIO_LINK_dots_unescaped:
  "re_search CLIO_LINK (CHR 0x22 # ''http://clioXcolumbiaYedu/catalog/42'' @ [CHR 0x22]) = Some (Some ''42'')
   \<and> re_search CLIO_LINK (CHR 0x22 # ''http://clio'' @ [CHR 0x0A] @ ''columbia.edu/catalog/42'' @ [CHR 0x22]) = None"
  by (simp add: re_search_def CLIO_LINK_def lit_def dot_def alnum_def in_range_def)

text \<open>
  Of two quoted URLs the first is the one found, and an id with a character that is
  neither a digit nor a letter gives no match.
\<close>

lemma CLIO_LINK_first_match_wins:
  "re_search CLIO_LINK (quoted_catalog_url ''1111'' @ '' and '' @ quoted_catalog_url ''2222'') = Some (Some ''1111'')
   \<and> re_search CLIO_LINK (quoted_catalog_url ''12-34'') = None"
  by (simp add: re_search_def quoted_catalog_url_def CLIO_LINK_def lit_def dot_def alnum_def in_range_def)

text \<open>The end anchor of the identifier pattern: nothing but one newline may follow the digits.\<close>

lemma CLIO_DERIVED_ID_end_anchor:
  "re_match CLIO_DERIVED_ID ''ldpd_1234abc_5678x'' = None
   \<and> re_match CLIO_DERIVED_ID (''ldpd_1234abc_5678'' @ [CHR 0x0A]) = Some (Some ''1234abc'')
   \<and> re_match CLIO_DERIVED_ID ''xldpd_1234abc_5678'' = None"
  by (simp add: re_match_def CLIO_DERIVED_ID_def lit_def underscore_def alnum_def digit_def in_range_def)

section \<open>Properties of the identifier extraction\<close>

lemma clio_id_structured:
  assumes "doc ''identifier'' = Some (JString (''ldpd'' @ us1 @ seg @ us2 @ num))"
    and "us1 \<noteq> []" "list_all underscore us1"
    and "seg \<noteq> []" "list_all alnum seg"
    and "us2 \<noteq> []" "list_all underscore us2"
    and "num \<noteq> []" "list_all digit num"
  shows "clio_id doc = Inr (Some seg)"
  using assms(1) CLIO_DERIVED_ID_match [OF assms(2-9)]
  by (simp add: clio_id_def)

lemma clio_id_link_strategy:
  assumes "doc ''identifier'' = Some (JString ident)" "re_match CLIO_DERIVED_ID ident = None"
    and "dict_get doc ''stripped_tags'' (JString []) = JString t"
  shows "clio_id doc = Inr (case re_search CLIO_LINK t of Some g \<Rightarrow> g | None \<Rightarrow> None)"
  using assms by (simp add: clio_id_def split: option.splits)

text \<open>
  When \<^verbatim>\<open>clio_id\<close> returns and when it raises: it returns exactly when the identifier
  is a string and either gives an id or the free text is absent or a string.
\<close>

lemma clio_id_returns_iff:
  "(\<exists>r. clio_id doc = Inr r) \<longleftrightarrow>
     (\<exists>ident. doc ''identifier'' = Some (JString ident) \<and>
        ((\<exists>seg. re_match CLIO_DERIVED_ID ident = Some (Some seg)) \<or>
         (\<exists>t. dict_get doc ''stripped_tags'' (JString []) = JString t)))"
  by (auto simp: clio_id_def Let_def split: option.splits json.splits)

text \<open>
  Claim C6. When the identifier of a document is \<^verbatim>\<open>ldpd\<close>, one or more underscores,
  a non-empty alphanumeric segment, one or more underscores and a non-empty run of
  digits, \<^verbatim>\<open>clio_id\<close> returns that segment; for \<^verbatim>\<open>ldpd_1234abc_5678\<close> it returns
  \<^verbatim>\<open>1234abc\<close>. When neither pattern matches, it returns \<^verbatim>\<open>None\<close> and raises nothing.
\<close>

theorem clio_id_extraction:
  "(doc ''identifier'' = Some (JString (''ldpd'' @ us1 @ seg @ us2 @ num))
      \<and> us1 \<noteq> [] \<and> list_all underscore us1 \<and> seg \<noteq> [] \<and> list_all alnum seg
      \<and> us2 \<noteq> [] \<and> list_all underscore us2 \<and> num \<noteq> [] \<and> list_all digit num
      \<longrightarrow> clio_id doc = Inr (Some seg))
   \<and> clio_id [''identifier'' \<mapsto> JString ''ldpd_1234abc_5678''] = Inr (Some ''1234abc'')
   \<and> (doc' ''identifier'' = Some (JString ident)
      \<and> re_match CLIO_DERIVED_ID ident = None
      \<and> dict_get doc' ''stripped_tags'' (JString []) = JString t
      \<and> re_search CLIO_LINK t = None
      \<longrightarrow> clio_id doc' = Inr None)"
proof (intro conjI impI)
  assume "doc ''identifier'' = Some (JString (''ldpd'' @ us1 @ seg @ us2 @ num))
      \<and> us1 \<noteq> [] \<and> list_all underscore us1 \<and> seg \<noteq> [] \<and> list_all alnum seg
      \<and> us2 \<noteq> [] \<and> list_all underscore us2 \<and> num \<noteq> [] \<and> list_all digit num"
  then show "clio_id doc = Inr (Some seg)"
    by (intro clio_id_structured [of doc us1 seg us2 num]) simp_all
next
  have "clio_id [''identifier'' \<mapsto> JString (''ldpd'' @ ''_'' @ ''1234abc'' @ ''_'' @ ''5678'')] = Inr (Some ''1234abc'')"
    by (rule clio_id_structured [of _ "''_''" "''1234abc''" "''_''" "''5678''"])
       (simp_all add: underscore_def alnum_def digit_def in_range_def)
  then show "clio_id [''identifier'' \<mapsto> JString ''ldpd_1234abc_5678''] = Inr (Some ''1234abc'')"
    by simp
next
  assume "doc' ''identifier'' = Some (JString ident)
      \<and> re_match CLIO_DERIVED_ID ident = None
      \<and> dict_get doc' ''stripped_tags'' (JString []) = JString t
      \<and> re_search CLIO_LINK t = None"
  then show "clio_id doc' = Inr None"
    by (simp add: clio_id_link_strategy)
qed

theorem clio_id_extraction_witness:
  "clio_id [''identifier'' \<mapsto> JString ''ldpd__77x_001'', ''stripped_tags'' \<mapsto> JString ''none''] = Inr (Some ''77x'')
   \<and> clio_id [''identifier'' \<mapsto> JString ''ldpd_1234abc_5678''] = Inr (Some ''1234abc'')
   \<and> clio_id [''identifier'' \<mapsto> JString ''item_7'', ''stripped_tags'' \<mapsto> JString ''no link here''] = Inr None"
proof -
  let ?d = "[''identifier'' \<mapsto> JString ''ldpd__77x_001'', ''stripped_tags'' \<mapsto> JString ''none'']"
  let ?d' = "[''identifier'' \<mapsto> JString ''item_7'', ''stripped_tags'' \<mapsto> JString ''no link here'']"
  have a: "?d ''identifier'' = Some (JString (''ldpd'' @ ''__'' @ ''77x'' @ ''_'' @ ''001''))
      \<and> ''__'' \<noteq> [] \<and> list_all underscore ''__'' \<and> ''77x'' \<noteq> [] \<and> list_all alnum ''77x''
      \<and> ''_'' \<noteq> [] \<and> list_all underscore ''_'' \<and> ''001'' \<noteq> [] \<and> list_all digit ''001''"
    by (simp add: underscore_def alnum_def digit_def in_range_def)
  have b: "?d' ''identifier'' = Some (JString ''item_7'')
      \<and> re_match CLIO_DERIVED_ID ''item_7'' = None
      \<and> dict_get ?d' ''stripped_tags'' (JString []) = JString ''no link here''
      \<and> re_search CLIO_LINK ''no link here'' = None"
    by (simp add: dict_get_def re_match_def re_search_def CLIO_DERIVED_ID_def CLIO_LINK_def lit_def)
  show ?thesis
    using clio_id_extraction [of ?d "''__''" "''77x''" "''_''" "''001''" ?d' "''item_7''" "''no link here''"]
          a b
    by blast
qed

text \<open>
  Claim C7, as stated, fails: a catalog URL with the scheme \<^verbatim>\<open>https\<close> in the free
  text is not found, with or without double quotes around it. Nor is a URL with the
  scheme \<^verbatim>\<open>http\<close> found when it does not stand in double quotes.
\<close>

theorem clio_id_https_link_counterexample:
  "clio_id [''identifier'' \<mapsto> JString ''item_7'',
            ''stripped_tags'' \<mapsto> JString ''see https://clio.columbia.edu/catalog/9999 for more''] = Inr None
   \<and> clio_id [''identifier'' \<mapsto> JString ''item_7'',
            ''stripped_tags'' \<mapsto>
              JString (''see '' @ [CHR 0x22] @ ''https://clio.columbia.edu/catalog/9999'' @ [CHR 0x22])] = Inr None
   \<and> clio_id [''identifier'' \<mapsto> JString ''item_7'',
            ''stripped_tags'' \<mapsto> JString ''see http://clio.columbia.edu/catalog/9999 for more''] = Inr None"
  by (simp add: clio_id_def dict_get_def re_match_def re_search_def CLIO_DERIVED_ID_def CLIO_LINK_def lit_def)

text \<open>
  Claim C7, amended. When the identifier does not match the structured pattern and the
  free text holds the catalog URL \<^verbatim>\<open>"http://clio.columbia.edu/catalog/<id>"\<close> (scheme
  \<^verbatim>\<open>http\<close>, inside double quotes, \<^verbatim>\<open><id>\<close> non-empty and alphanumeric), \<^verbatim>\<open>clio_id\<close>
  returns \<^verbatim>\<open><id>\<close>, provided no match of the link pattern starts earlier in the text;
  none does when no double quote stands before the URL. When the identifier matches
  the structured pattern, its segment is returned even if the free text holds such a
  URL.
\<close>

theorem clio_id_link:
  "(doc ''identifier'' = Some (JString ident)
      \<and> re_match CLIO_DERIVED_ID ident = None
      \<and> doc ''stripped_tags'' = Some (JString (pre @ quoted_catalog_url cid @ post))
      \<and> cid \<noteq> [] \<and> list_all alnum cid
      \<and> no_link_before (pre @ quoted_catalog_url cid @ post) (length pre)
      \<longrightarrow> clio_id doc = Inr (Some cid))
   \<and> (CHR 0x22 \<notin> set pre' \<longrightarrow> no_link_before (pre' @ rest) (length pre'))
   \<and> (doc' ''identifier'' = Some (JString (''ldpd'' @ us1 @ seg @ us2 @ num))
      \<and> us1 \<noteq> [] \<and> list_all underscore us1 \<and> seg \<noteq> [] \<and> list_all alnum seg
      \<and> us2 \<noteq> [] \<and> list_all underscore us2 \<and> num \<noteq> [] \<and> list_all digit num
      \<and> doc' ''stripped_tags'' = Some (JString (pre'' @ quoted_catalog_url cid' @ post'))
      \<longrightarrow> clio_id doc' = Inr (Some seg))"
proof (intro conjI impI)
  let ?tags = "pre @ quoted_catalog_url cid @ post"
  assume a: "doc ''identifier'' = Some (JString ident)
      \<and> re_match CLIO_DERIVED_ID ident = None
      \<and> doc ''stripped_tags'' = Some (JString ?tags)
      \<and> cid \<noteq> [] \<and> list_all alnum cid
      \<and> no_link_before ?tags (length pre)"
  then have "re_search CLIO_LINK ?tags = Some (Some cid)"
    by (intro CLIO_LINK_search_first) simp_all
  moreover have "dict_get doc ''stripped_tags'' (JString []) = JString ?tags"
    using a by (simp add: dict_get_def)
  ultimately show "clio_id doc = Inr (Some cid)"
    using a by (simp add: clio_id_link_strategy)
next
  assume "CHR 0x22 \<notin> set pre'"
  then show "no_link_before (pre' @ rest) (length pre')"
    by (rule no_link_before_quote)
next
  assume "doc' ''identifier'' = Some (JString (''ldpd'' @ us1 @ seg @ us2 @ num))
      \<and> us1 \<noteq> [] \<and> list_all underscore us1 \<and> seg \<noteq> [] \<and> list_all alnum seg
      \<and> us2 \<noteq> [] \<and> list_all underscore us2 \<and> num \<noteq> [] \<and> list_all digit num
      \<and> doc' ''stripped_tags'' = Some (JString (pre'' @ quoted_catalog_url cid' @ post'))"
  then show "clio_id doc' = Inr (Some seg)"
    by (intro clio_id_structured [of doc' us1 seg us2 num]) simp_all
qed

text \<open>
  In the free text of the first document a quoted word stands before the URL; in that
  of the second (a structured identifier) the URL is the first quoted part.
\<close>

theorem clio_id_link_witness:
  "clio_id [''identifier'' \<mapsto> JString ''item_7'',
            ''stripped_tags'' \<mapsto>
              JString (''a '' @ [CHR 0x22] @ ''b'' @ [CHR 0x22] @ '' '' @ quoted_catalog_url ''9999'' @ '' now'')]
     = Inr (Some ''9999'')
   \<and> no_link_before (''see '' @ quoted_catalog_url ''9999'' @ '' now'') (length ''see '')
   \<and> clio_id [''identifier'' \<mapsto> JString ''ldpd_1234abc_5678'',
            ''stripped_tags'' \<mapsto> JString (''see '' @ quoted_catalog_url ''9999'' @ '' now'')]
     = Inr (Some ''1234abc'')"
proof -
  let ?pre = "''a '' @ [CHR 0x22] @ ''b'' @ [CHR 0x22] @ '' ''"
  let ?t = "?pre @ quoted_catalog_url ''9999'' @ '' now''"
  let ?t' = "''see '' @ quoted_catalog_url ''9999'' @ '' now''"
  let ?d = "[''identifier'' \<mapsto> JString ''item_7'', ''stripped_tags'' \<mapsto> JString ?t]"
  let ?d' = "[''identifier'' \<mapsto> JString (''ldpd'' @ ''_'' @ ''1234abc'' @ ''_'' @ ''5678''),
              ''stripped_tags'' \<mapsto> JString ?t']"
  have n: "no_link_before ?t (length ?pre)"
    by (simp add: no_link_before_def link_starts_at_def quoted_catalog_url_def CLIO_LINK_def lit_def
        upt_rec)
  have a: "?d ''identifier'' = Some (JString ''item_7'')
      \<and> re_match CLIO_DERIVED_ID ''item_7'' = None
      \<and> ?d ''stripped_tags'' = Some (JString ?t)
      \<and> ''9999'' \<noteq> [] \<and> list_all alnum ''9999''
      \<and> no_link_before ?t (length ?pre)"
    using n by (simp add: re_match_def CLIO_DERIVED_ID_def lit_def alnum_def in_range_def)
  have q: "CHR 0x22 \<notin> set ''see ''" by simp
  have b: "?d' ''identifier'' = Some (JString (''ldpd'' @ ''_'' @ ''1234abc'' @ ''_'' @ ''5678''))
      \<and> ''_'' \<noteq> [] \<and> list_all underscore ''_'' \<and> ''1234abc'' \<noteq> [] \<and> list_all alnum ''1234abc''
      \<and> ''_'' \<noteq> [] \<and> list_all underscore ''_'' \<and> ''5678'' \<noteq> [] \<and> list_all digit ''5678''
      \<and> ?d' ''stripped_tags'' = Some (JString ?t')"
    by (simp add: underscore_def alnum_def digit_def in_range_def)
  have "clio_id ?d = Inr (Some ''9999'')
      \<and> no_link_before (''see '' @ quoted_catalog_url ''9999'' @ '' now'') (length ''see '')
      \<and> clio_id ?d' = Inr (Some ''1234abc'')"
    using clio_id_link [of ?d "''item_7''" ?pre "''9999''" "'' now''" "''see ''"
            "quoted_catalog_url ''9999'' @ '' now''" ?d' "''_''" "''1234abc''" "''_''" "''5678''"
            "''see ''" "''9999''" "'' now''"] a b q
    by blast
  then show ?thesis by simp
qed

text \<open>
  Claim C10, as stated, fails: \<^verbatim>\<open>doc.get('stripped_tags', '')\<close> gives the empty string
  for a missing key only. A field that is present with the value \<^verbatim>\<open>null\<close> or a list is
  handed to \<^verbatim>\<open>search\<close>, which raises \<^verbatim>\<open>TypeError\<close>, although the document has an
  \<^verbatim>\<open>identifier\<close>.
\<close>

theorem clio_id_raises_counterexample:
  "clio_id [''identifier'' \<mapsto> JString ''item_7'', ''stripped_tags'' \<mapsto> JNull] = Inl TypeError
   \<and> clio_id [''identifier'' \<mapsto> JString ''item_7'',
              ''stripped_tags'' \<mapsto> JArray [JString ''first'', JString ''second'']] = Inl TypeError"
  by (simp add: clio_id_def dict_get_def re_match_def CLIO_DERIVED_ID_def lit_def)

text \<open>
  Claim C10, amended. For a document whose \<^verbatim>\<open>identifier\<close> is a string and whose
  \<^verbatim>\<open>stripped_tags\<close> field is absent or a string, \<^verbatim>\<open>clio_id\<close> returns and does not
  raise. A missing \<^verbatim>\<open>stripped_tags\<close> field behaves as the empty string, and then the
  result is \<^verbatim>\<open>None\<close> when the identifier does not match the structured pattern.
\<close>

theorem clio_id_never_raises:
  "(doc ''identifier'' = Some (JString ident)
      \<and> (doc ''stripped_tags'' = None \<or> doc ''stripped_tags'' = Some (JString t))
      \<longrightarrow> (\<exists>r. clio_id doc = Inr r))
   \<and> (doc ''stripped_tags'' = None \<longrightarrow> clio_id doc = clio_id (doc(''stripped_tags'' \<mapsto> JString [])))
   \<and> (doc ''identifier'' = Some (JString ident) \<and> doc ''stripped_tags'' = None
        \<and> re_match CLIO_DERIVED_ID ident = None \<longrightarrow> clio_id doc = Inr None)"
proof (intro conjI impI)
  assume "doc ''identifier'' = Some (JString ident)
      \<and> (doc ''stripped_tags'' = None \<or> doc ''stripped_tags'' = Some (JString t))"
  then have "\<exists>ident. doc ''identifier'' = Some (JString ident) \<and>
        ((\<exists>seg. re_match CLIO_DERIVED_ID ident = Some (Some seg)) \<or>
         (\<exists>t. dict_get doc ''stripped_tags'' (JString []) = JString t))"
    by (auto simp: dict_get_def)
  then show "\<exists>r. clio_id doc = Inr r"
    by (simp only: clio_id_returns_iff)
next
  assume "doc ''stripped_tags'' = None"
  then have e: "dict_get (doc(''stripped_tags'' \<mapsto> JString [])) ''stripped_tags'' (JString []) =
      dict_get doc ''stripped_tags'' (JString [])"
    by (simp add: dict_get_def)
  show "clio_id doc = clio_id (doc(''stripped_tags'' \<mapsto> JString []))"
    unfolding clio_id_def e by simp
next
  assume "doc ''identifier'' = Some (JString ident) \<and> doc ''stripped_tags'' = None
        \<and> re_match CLIO_DERIVED_ID ident = None"
  then show "clio_id doc = Inr None"
    by (simp add: clio_id_def dict_get_def CLIO_LINK_search_empty)
qed

theorem clio_id_never_raises_witness:
  "(\<exists>r. clio_id [''identifier'' \<mapsto> JString ''item_7''] = Inr r)
   \<and> clio_id [''identifier'' \<mapsto> JString ''item_7''] =
       clio_id [''identifier'' \<mapsto> JString ''item_7'', ''stripped_tags'' \<mapsto> JString []]
   \<and> clio_id [''identifier'' \<mapsto> JString ''item_7''] = Inr None"
proof -
  let ?d = "[''identifier'' \<mapsto> JString ''item_7'']"
  have a: "?d ''identifier'' = Some (JString ''item_7'')" by simp
  have b: "?d ''stripped_tags'' = None" by simp
  have c: "re_match CLIO_DERIVED_ID ''item_7'' = None"
    by (simp add: re_match_def CLIO_DERIVED_ID_def lit_def)
  note t = clio_id_never_raises [of ?d "''item_7''" "[]"]
  have 1: "\<exists>r. clio_id ?d = Inr r" using t a b by blast
  have 2: "clio_id ?d = clio_id (?d(''stripped_tags'' \<mapsto> JString []))" using t b by blast
  have 3: "clio_id ?d = Inr None" using t a b c by blast
  show ?thesis using 1 2 3 by blast
qed

section \<open>Properties of the catalog record resolution\<close>

text \<open>
  A first attempt that parses returns the record after one request. A failed parse that
  is not a first attempt under status 429 ends the call with the empty record.
\<close>

lemma fetch_clio_parsed:
  assumes "marc (api (sent tr)) = Parsed r"
  shows "fetch_clio api identifier (- 1) tr =
           Some (Inr r, tr @ [Get (''https://clio.columbia.edu/catalog/'' @ identifier @ ''.marc'')])"
  using assms by (subst fetch_clio.simps) (simp add: Let_def)

lemma sent_append: "sent (tr @ es) = sent tr + sent es"
  by (simp add: sent_def)

lemma fetch_clio_gives_up:
  assumes "retry_after = - 1 \<or> (0 \<le> retry_after \<and> retry_after \<le> sleep_max)"
    and "\<And>r. marc (api (sent tr)) \<noteq> Parsed r"
    and "\<not> (retry_after = - 1 \<and> status_code (api (sent tr)) = 429)"
  shows "fetch_clio api identifier retry_after tr =
           Some (Inr Record_empty,
                 tr @ (if retry_after = - 1 then [] else [Sleep retry_after])
                    @ [Get (''https://clio.columbia.edu/catalog/'' @ identifier @ ''.marc''),
                       LogGivingUp (url (api (sent tr)))])"
proof (cases "retry_after = - 1")
  case True
  then show ?thesis using assms
    by (subst fetch_clio.simps) (auto simp: Let_def split: parse_outcome.splits)
next
  case False
  then have "0 \<le> retry_after" "\<not> sleep_max < retry_after" using assms(1) by simp_all
  moreover have "sent (tr @ [Sleep retry_after]) = sent tr" by (simp add: sent_def)
  ultimately show ?thesis using False assms
    by (subst fetch_clio.simps) (auto simp: Let_def sleep_def split: parse_outcome.splits)
qed

text \<open>
  Against a server that answers every request with status 429, an unparsable body and
  \<^verbatim>\<open>Retry-After: -2\<close>, no call in first-attempt mode returns.
\<close>

lemma fetch_clio_loops_aux:
  assumes "fetch_clio api ident ra tr = Some y"
  shows "api = (\<lambda>n. throttled (- 2)) \<longrightarrow> ra = - 1 \<longrightarrow> False"
proof (rule fetch_clio.raw_induct
    [where P = "\<lambda>api ident ra tr y. api = (\<lambda>n. throttled (- 2)) \<longrightarrow> ra = - 1 \<longrightarrow> False"
       and api = api and retry_after = ra and tr = tr and y = y])
  show "fetch_clio api ident ra tr = Some y" by fact
next
  fix f :: "clio_api \<Rightarrow> string \<Rightarrow> int \<Rightarrow> event list \<Rightarrow> ((py_error + marc_record) \<times> event list) option"
  fix api ident ra tr y
  assume IH: "\<And>api ident ra tr y. f api ident ra tr = Some y \<Longrightarrow>
                 api = (\<lambda>n. throttled (- 2)) \<longrightarrow> ra = - 1 \<longrightarrow> False"
    and step: "(case if ra \<noteq> - 1 then sleep ra tr else Inr tr of
      Inl e \<Rightarrow> Some (Inl e, tr)
      | Inr tr1 \<Rightarrow>
          let response = api (sent tr1);
              tr2 = tr1 @ [Get (''https://clio.columbia.edu/catalog/'' @ ident @ ''.marc'')]
          in case marc response of Parsed r \<Rightarrow> Some (Inr r, tr2)
             | _ \<Rightarrow> if ra = - 1 \<and> status_code response = 429
                   then case retry_after_header response of
                        Absent \<Rightarrow> Some (Inl KeyError, tr2)
                        | NotAnInt \<Rightarrow> Some (Inl ValueError, tr2)
                        | Seconds s \<Rightarrow>
                            f api ident (s + 1)
                             (tr2 @ [LogRateLimited (s + 1) (url response), LogHeaders])
                   else Some (Inr Record_empty, tr2 @ [LogGivingUp (url response)])) = Some y"
  show "api = (\<lambda>n. throttled (- 2)) \<longrightarrow> ra = - 1 \<longrightarrow> False"
  proof (intro impI)
    assume a: "api = (\<lambda>n. throttled (- 2))" and r: "ra = - 1"
    from step a r have "f api ident (- 1)
        (tr @ [Get (''https://clio.columbia.edu/catalog/'' @ ident @ ''.marc''),
               LogRateLimited (- 1) (url (throttled (- 2))), LogHeaders]) = Some y"
      by (simp add: Let_def throttled_def)
    then show False using IH a by blast
  qed
qed

lemma fetch_clio_loops:
  "fetch_clio (\<lambda>n. throttled (- 2)) ident (- 1) tr = None"
  using fetch_clio_loops_aux [of "\<lambda>n. throttled (- 2)" ident "- 1" tr]
  by (cases "fetch_clio (\<lambda>n. throttled (- 2)) ident (- 1) tr") auto

text \<open>
  With a non-negative \<^verbatim>\<open>Retry-After: s\<close> that \<^verbatim>\<open>time.sleep\<close> accepts, the policy
  works as intended: a first attempt that fails to parse under status 429 is followed by
  a sleep of \<open>s + 1\<close> seconds and one more request, whose outcome is final.
\<close>

lemma fetch_clio_retries_once:
  assumes "0 \<le> s \<and> s + 1 \<le> sleep_max" "status_code (api 0) = 429"
    "retry_after_header (api 0) = Seconds s"
    and "\<And>r. marc (api 0) \<noteq> Parsed r"
  shows "fetch_clio api ident (- 1) [] =
           Some (case marc (api 1) of
                   Parsed r \<Rightarrow> Inr r
                 | _ \<Rightarrow> Inr Record_empty,
                 [Get (''https://clio.columbia.edu/catalog/'' @ ident @ ''.marc''),
                  LogRateLimited (s + 1) (url (api 0)), LogHeaders, Sleep (s + 1),
                  Get (''https://clio.columbia.edu/catalog/'' @ ident @ ''.marc'')]
                 @ (case marc (api 1) of Parsed r \<Rightarrow> [] | _ \<Rightarrow> [LogGivingUp (url (api 1))]))"
proof -
  let ?u = "Get (''https://clio.columbia.edu/catalog/'' @ ident @ ''.marc'')"
  let ?tr = "[?u, LogRateLimited (s + 1) (url (api 0)), LogHeaders]"
  have first: "fetch_clio api ident (- 1) [] = fetch_clio api ident (s + 1) ?tr"
    using assms by (subst fetch_clio.simps) (auto simp: Let_def sent_def split: parse_outcome.splits)
  have second: "fetch_clio api ident (s + 1) ?tr =
      Some (case marc (api 1) of Parsed r \<Rightarrow> Inr r | _ \<Rightarrow> Inr Record_empty,
            ?tr @ [Sleep (s + 1), ?u]
              @ (case marc (api 1) of Parsed r \<Rightarrow> [] | _ \<Rightarrow> [LogGivingUp (url (api 1))]))"
    using assms(1) by (subst fetch_clio.simps) (auto simp: Let_def sent_def sleep_def split: parse_outcome.splits)
  show ?thesis using first second by simp
qed

text \<open>
  Claim C4. The retry is marked by \<^verbatim>\<open>retry_after\<close> being different from \<open>-1\<close>, and
  the value passed on is the header plus one. With \<^verbatim>\<open>Retry-After: -2\<close> the recursive
  call receives \<open>-1\<close> again: it does not sleep and counts as a first attempt. A server
  that answers so twice and then delivers the record is sent three requests (two
  retries), and against a server that always answers so the call never returns.
\<close>

theorem fetch_clio_retries_without_bound:
  "fetch_clio (\<lambda>n. if n < 2 then throttled (- 2) else found) ''123'' (- 1) [] =
     Some (Inr (Record [(''245'', ''Title'')]),
       [Get ''https://clio.columbia.edu/catalog/123.marc'',
        LogRateLimited (- 1) ''https://clio.columbia.edu/catalog/123.marc'', LogHeaders,
        Get ''https://clio.columbia.edu/catalog/123.marc'',
        LogRateLimited (- 1) ''https://clio.columbia.edu/catalog/123.marc'', LogHeaders,
        Get ''https://clio.columbia.edu/catalog/123.marc''])
   \<and> fetch_clio (\<lambda>n. throttled (- 2)) ''123'' (- 1) [] = None"
proof -
  have "fetch_clio (\<lambda>n. if n < 2 then throttled (- 2) else found) ''123'' (- 1) [] =
     Some (Inr (Record [(''245'', ''Title'')]),
       [Get ''https://clio.columbia.edu/catalog/123.marc'',
        LogRateLimited (- 1) ''https://clio.columbia.edu/catalog/123.marc'', LogHeaders,
        Get ''https://clio.columbia.edu/catalog/123.marc'',
        LogRateLimited (- 1) ''https://clio.columbia.edu/catalog/123.marc'', LogHeaders,
        Get ''https://clio.columbia.edu/catalog/123.marc''])"
    by (simp add: fetch_clio.simps sent_def throttled_def found_def sleep_def Let_def)
  then show ?thesis using fetch_clio_loops [of "''123''" "[]"] by simp
qed

text \<open>
  Claim C5. After \<^verbatim>\<open>Retry-After: -2\<close> the retry is handled as a first attempt, so when
  it fails under status 429 with no \<^verbatim>\<open>Retry-After\<close> header the call raises
  \<^verbatim>\<open>KeyError\<close> instead of returning the empty record. After \<^verbatim>\<open>Retry-After: -3\<close>
  the retry raises \<^verbatim>\<open>ValueError\<close> from the sleep of \<open>-2\<close> seconds.
\<close>

theorem fetch_clio_retry_raises:
  "fetch_clio (\<lambda>n. if n = 0 then throttled (- 2) else (throttled 0)\<lparr>retry_after_header := Absent\<rparr>)
       ''123'' (- 1) [] =
     Some (Inl KeyError,
       [Get ''https://clio.columbia.edu/catalog/123.marc'',
        LogRateLimited (- 1) ''https://clio.columbia.edu/catalog/123.marc'', LogHeaders,
        Get ''https://clio.columbia.edu/catalog/123.marc''])
   \<and> fetch_clio (\<lambda>n. throttled (- 3)) ''123'' (- 1) [] =
     Some (Inl ValueError,
       [Get ''https://clio.columbia.edu/catalog/123.marc'',
        LogRateLimited (- 2) ''https://clio.columbia.edu/catalog/123.marc'', LogHeaders])"
  by (simp add: fetch_clio.simps sent_def throttled_def sleep_def Let_def)

section \<open>Properties of the derived links\<close>

text \<open>
  Claim C9. The result of \<^verbatim>\<open>ia_links\<close> depends on the \<^verbatim>\<open>identifier\<close> field only: two
  documents that agree on it get the same result. When the identifier is present the
  result is no exception but the four links \<^verbatim>\<open>thumbnail\<close>, \<^verbatim>\<open>poster\<close>, \<^verbatim>\<open>pdf\<close>
  and \<^verbatim>\<open>iframe\<close> (the viewer), each the fixed template filled with the identifier.
\<close>

theorem ia_links_deterministic:
  "(d1 ''identifier'' = d2 ''identifier'' \<longrightarrow> ia_links d1 = ia_links d2)
   \<and> (d ''identifier'' = Some ia_id \<longrightarrow>
        ia_links d =
          Inr [(''thumbnail'', ''https://archive.org/services/img/'' @ ia_id),
               (''poster'', ''https://archive.org/download/'' @ ia_id @ ''/page/cover_medium.jpg''),
               (''pdf'', ''https://archive.org/download/'' @ ia_id @ ''/'' @ ia_id @ ''.pdf''),
               (''iframe'', ''https://archive.org/stream/'' @ ia_id @ ''?ui=full&showNavbar=false'')])"
  by (simp add: ia_links_def)

theorem ia_links_deterministic_witness:
  "ia_links [''identifier'' \<mapsto> ''book1'', ''description'' \<mapsto> ''first''] =
     ia_links [''identifier'' \<mapsto> ''book1'', ''title'' \<mapsto> ''another'']
   \<and> ia_links [''identifier'' \<mapsto> ''book1'', ''description'' \<mapsto> ''first''] =
          Inr [(''thumbnail'', ''https://archive.org/services/img/book1''),
               (''poster'', ''https://archive.org/download/book1/page/cover_medium.jpg''),
               (''pdf'', ''https://archive.org/download/book1/book1.pdf''),
               (''iframe'', ''https://archive.org/stream/book1?ui=full&showNavbar=false'')]"
proof -
  let ?d1 = "[''identifier'' \<mapsto> ''book1'', ''description'' \<mapsto> ''first'']"
  let ?d2 = "[''identifier'' \<mapsto> ''book1'', ''title'' \<mapsto> ''another'']"
  have a: "?d1 ''identifier'' = ?d2 ''identifier''" by simp
  have b: "?d1 ''identifier'' = Some ''book1''" by simp
  have e: "ia_links ?d1 = ia_links ?d2
      \<and> ia_links ?d1 =
          Inr [(''thumbnail'', ''https://archive.org/services/img/'' @ ''book1''),
               (''poster'', ''https://archive.org/download/'' @ ''book1'' @ ''/page/cover_medium.jpg''),
               (''pdf'', ''https://archive.org/download/'' @ ''book1'' @ ''/'' @ ''book1'' @ ''.pdf''),
               (''iframe'', ''https://archive.org/stream/'' @ ''book1'' @ ''?ui=full&showNavbar=false'')]"
    using ia_links_deterministic [of ?d1 ?d2 ?d1 "''book1''"] a b by blast
  have e1: "ia_links ?d1 = ia_links ?d2" using e by (rule conjunct1)
  have "ia_links ?d1 =
          Inr [(''thumbnail'', ''https://archive.org/services/img/'' @ ''book1''),
               (''poster'', ''https://archive.org/download/'' @ ''book1'' @ ''/page/cover_medium.jpg''),
               (''pdf'', ''https://archive.org/download/'' @ ''book1'' @ ''/'' @ ''book1'' @ ''.pdf''),
               (''iframe'', ''https://archive.org/stream/'' @ ''book1'' @ ''?ui=full&showNavbar=false'')]"
    using e by (rule conjunct2)
  then have e2: "ia_links ?d1 =
          Inr [(''thumbnail'', ''https://archive.org/services/img/book1''),
               (''poster'', ''https://archive.org/download/book1/page/cover_medium.jpg''),
               (''pdf'', ''https://archive.org/download/book1/book1.pdf''),
               (''iframe'', ''https://archive.org/stream/book1?ui=full&showNavbar=false'')]"
    by simp
  show ?thesis using e1 e2 by (rule conjI)
qed

section \<open>Properties of the streaming output\<close>

lemma commas_Cons: "commas (x # xs) = x # concat (map (\<lambda>y. ['','', y]) xs)"
  by (induction xs arbitrary: x) simp_all

lemma printed_append: "printed (es @ fs) = printed es @ printed fs"
  by (induction es rule: printed.induct) simp_all

lemma dump_loop_Some:
  "dump_loop dumps (Some d) ds out =
     (out @ concat (map (\<lambda>x. [Print '','', Print (dumps x), Next]) (d # ds)), [])"
proof (induction ds arbitrary: d out)
  case Nil
  show ?case by (simp add: next_or_None_def)
next
  case (Cons e ds)
  show ?case using Cons [of e "out @ [Print '','', Print (dumps d), Next]"]
    by (simp add: next_or_None_def)
qed

lemma dump_iterable_Nil: "dump_iterable dumps [] = ([Print ''['', Next, Print '']''], [])"
  by (simp add: dump_iterable_def next_or_None_def)

lemma dump_iterable_Cons:
  "dump_iterable dumps (d # ds) =
     ([Print ''['', Next, Print (dumps d), Next]
       @ concat (map (\<lambda>x. [Print '','', Print (dumps x), Next]) ds) @ [Print '']''], [])"
proof (cases ds)
  case Nil
  then show ?thesis by (simp add: dump_iterable_def next_or_None_def)
next
  case (Cons e es)
  then show ?thesis
    by (simp add: dump_iterable_def next_or_None_def dump_loop_Some del: dump_loop.simps)
qed

lemma printed_loop_events:
  "printed (concat (map (\<lambda>x. [Print '','', Print (dumps x), Next]) ds)) =
     concat (map (\<lambda>y. ['','', y]) (map dumps ds))"
  by (induction ds) simp_all

lemma dump_iterable_printed:
  "printed (fst (dump_iterable dumps ds)) = ''['' # commas (map dumps ds) @ ['']'']"
proof (cases ds)
  case Nil
  then show ?thesis by (simp add: dump_iterable_Nil)
next
  case (Cons d ds')
  then show ?thesis
    by (simp add: dump_iterable_Cons printed_append printed_loop_events commas_Cons)
qed

lemma json_elements_separated:
  "list_all ok (x # xs) \<Longrightarrow> json_elements ok (x # concat (map (\<lambda>y. ['','', y]) xs) @ ['']''])"
proof (induction xs arbitrary: x)
  case Nil
  then show ?case by simp
next
  case (Cons y ys)
  then have "json_elements ok (y # concat (map (\<lambda>y. ['','', y]) ys) @ ['']''])" by simp
  then show ?case using Cons.prems by simp
qed

lemma json_elements_commas:
  assumes "vs \<noteq> []" "list_all ok vs"
  shows "json_elements ok (commas vs @ ['']''])"
proof (cases vs)
  case Nil
  then show ?thesis using assms(1) by simp
next
  case (Cons x xs)
  then have "json_elements ok (x # concat (map (\<lambda>y. ['','', y]) xs) @ ['']''])"
    using assms(2) by (intro json_elements_separated) simp
  then show ?thesis using Cons by (simp only: commas_Cons append_Cons)
qed

lemma json_array_commas:
  "list_all ok vs \<Longrightarrow> json_array_lines ok (''['' # commas vs @ ['']''])"
  by (cases "vs = []") (simp_all add: json_array_lines_def json_elements_commas)

text \<open>
  Claim C8. On the empty sequence \<^verbatim>\<open>dump_iterable\<close> prints the two lines \<^verbatim>\<open>[\<close> and
  \<^verbatim>\<open>]\<close>. On three items it prints \<^verbatim>\<open>[\<close>, the first item, a comma, the second item,
  a comma, the third item and \<^verbatim>\<open>]\<close>, and each item is printed before the next one is
  taken from the sequence. In general the printed lines are \<^verbatim>\<open>[\<close>, the items
  separated by commas, and \<^verbatim>\<open>]\<close>, which is a JSON array whenever every item is printed
  as a JSON value.
\<close>

theorem dump_iterable_output:
  "dump_iterable dumps [] = ([Print ''['', Next, Print '']''], [])
   \<and> stdout_text (fst (dump_iterable dumps [])) = [CHR ''['', CHR 0x0A, CHR '']'', CHR 0x0A]
   \<and> dump_iterable dumps [a, b, c] =
       ([Print ''['', Next, Print (dumps a), Next, Print '','', Print (dumps b), Next,
         Print '','', Print (dumps c), Next, Print '']''], [])
   \<and> printed (fst (dump_iterable dumps ds)) = ''['' # commas (map dumps ds) @ ['']'']
   \<and> (list_all ok (map dumps ds) \<longrightarrow> json_array_lines ok (printed (fst (dump_iterable dumps ds))))"
proof (intro conjI impI)
  show "dump_iterable dumps [] = ([Print ''['', Next, Print '']''], [])"
    by (rule dump_iterable_Nil)
  show "stdout_text (fst (dump_iterable dumps [])) = [CHR ''['', CHR 0x0A, CHR '']'', CHR 0x0A]"
    by (simp add: dump_iterable_Nil stdout_text_def)
  show "dump_iterable dumps [a, b, c] =
       ([Print ''['', Next, Print (dumps a), Next, Print '','', Print (dumps b), Next,
         Print '','', Print (dumps c), Next, Print '']''], [])"
    by (simp add: dump_iterable_Cons)
  show "printed (fst (dump_iterable dumps ds)) = ''['' # commas (map dumps ds) @ ['']'']"
    by (rule dump_iterable_printed)
  assume "list_all ok (map dumps ds)"
  then show "json_array_lines ok (printed (fst (dump_iterable dumps ds)))"
    by (simp only: dump_iterable_printed json_array_commas)
qed

theorem dump_iterable_output_witness:
  "list_all (\<lambda>v. v \<noteq> [] \<and> list_all digit v) (map id [''1'', ''20'', ''3''])
   \<and> json_array_lines (\<lambda>v. v \<noteq> [] \<and> list_all digit v) (printed (fst (dump_iterable id [''1'', ''20'', ''3''])))
   \<and> printed (fst (dump_iterable id [''1'', ''20'', ''3''])) = [''['', ''1'', '','', ''20'', '','', ''3'', '']'']"
proof -
  have h: "list_all (\<lambda>v. v \<noteq> [] \<and> list_all digit v) (map id [''1'', ''20'', ''3''])"
    by (simp add: digit_def in_range_def)
  note t = dump_iterable_output [of id "''1''" "''20''" "''3''" "[''1'', ''20'', ''3'']" "\<lambda>v. v \<noteq> [] \<and> list_all digit v"]
  have j: "json_array_lines (\<lambda>v. v \<noteq> [] \<and> list_all digit v) (printed (fst (dump_iterable id [''1'', ''20'', ''3''])))"
    using t h by blast
  have p: "printed (fst (dump_iterable id [''1'', ''20'', ''3''])) = [''['', ''1'', '','', ''20'', '','', ''3'', '']'']"
    using t by simp
  show ?thesis using h j p by blast
qed

end
